theory Spec2Isabelle
  imports Main "HOL-Library.Word"
begin

unbundle bit_operations_syntax

section \<open>The LZO1X decompression engine (LZO1XDecompressor::decompress)\<close>

text \<open>
  The source buffer is the list of the \<open>srcLen\<close> bytes at \<open>src\<close>, the read cursor \<open>ip\<close> an
  index into it.  The destination is the list of bytes written so far: every write of the
  source is \<open>*op++ = ...\<close>, so \<open>op - dst\<close> is the length of that list; \<open>maxDstLen\<close> is its
  capacity.  The control byte \<open>t\<close> is a \<open>uint32_t\<close> and wraps at \<open>2 ^ 32\<close>; \<open>mPos\<close> is a
  \<open>size_t\<close>, taken as 64 bits wide, and its subtractions wrap at \<open>2 ^ 64\<close>; \<open>mLen\<close> (a
  \<open>size_t\<close> that only grows by 255 per input byte) is a natural number.

  C++ leaves an access outside a buffer undefined.  The model runs on bounds-instrumented
  buffers: such an access ends the run with an outcome of its own that names the index.
\<close>

type_synonym byte = "8 word"
type_synonym u32 = "32 word"

datatype Result = OK | INPUT_OVERRUN | OUTPUT_OVERRUN | LOOKBEHIND_OVERRUN | INVALID_DATA | ERROR

datatype outcome =
    Returned Result nat "byte list"  \<comment> \<open>status, \<open>*dstLen\<close>, the bytes written to \<open>dst\<close>\<close>
  | SrcReadOutside nat               \<comment> \<open>a read of \<open>src[i]\<close> with \<open>i\<close> outside \<open>[0, srcLen)\<close>\<close>
  | DstWriteOutside nat              \<comment> \<open>a write of \<open>dst[i]\<close> with \<open>i \<ge> maxDstLen\<close>\<close>
  | DstReadOutside nat               \<comment> \<open>a read of \<open>dst[i]\<close> at or after the write cursor\<close>

record lzo_state =
  ip_off :: nat          \<comment> \<open>\<open>ip - src\<close>\<close>
  dst_buf :: "byte list" \<comment> \<open>\<open>dst[0 .. op - dst)\<close>\<close>
  t_reg :: u32           \<comment> \<open>\<open>t\<close>\<close>

datatype label = MainLoop | FirstLiteralRun | MatchLoop | MatchDone | MatchNext

definition size_sub :: "nat \<Rightarrow> nat \<Rightarrow> nat" where
  \<comment> \<open>\<open>a - b\<close> on \<open>size_t\<close>\<close>
  "size_sub a b = nat ((int a - int b) mod 2 ^ 64)"

text \<open>
  \<^verbatim>\<open>while (*ip == 0) { acc += 255; ip++; if (ip >= ipEnd) return INPUT_OVERRUN; }\<close>
  The first test of \<open>*ip\<close> comes with no bounds check before it.
\<close>

function zero_run :: "byte list \<Rightarrow> byte list \<Rightarrow> nat \<Rightarrow> 'a::numeral \<Rightarrow> outcome + nat \<times> 'a" where
  "zero_run src out ip acc =
     (if length src \<le> ip then Inl (SrcReadOutside ip)
      else if src ! ip = 0 then
        (if length src \<le> ip + 1 then Inl (Returned INPUT_OVERRUN 0 out)
         else zero_run src out (ip + 1) (acc + 255))
      else Inr (ip, acc))"
  by pat_completeness auto
termination
  by (relation "measure (\<lambda>(src, out, ip, acc). length src - ip)") auto

declare zero_run.simps [simp del]

text \<open>\<^verbatim>\<open>do { *op++ = *ip++; } while (--t > 0);\<close>\<close>

function lit_copy :: "byte list \<Rightarrow> nat \<Rightarrow> nat \<Rightarrow> byte list \<Rightarrow> u32 \<Rightarrow> outcome + nat \<times> byte list" where
  "lit_copy src maxDstLen ip out t =
     (if length src \<le> ip then Inl (SrcReadOutside ip)
      else if maxDstLen \<le> length out then Inl (DstWriteOutside (length out))
      else if 0 < t - 1 then lit_copy src maxDstLen (ip + 1) (out @ [src ! ip]) (t - 1)
      else Inr (ip + 1, out @ [src ! ip]))"
  by pat_completeness auto
termination
  by (relation "measure (\<lambda>(src, maxDstLen, ip, out, t). length src - ip)") auto

declare lit_copy.simps [simp del]

text \<open>One \<^verbatim>\<open>*op++ = dst[i]\<close>.\<close>

definition put_dst :: "nat \<Rightarrow> byte list \<Rightarrow> nat \<Rightarrow> outcome + byte list" where
  "put_dst maxDstLen out i =
     (if length out \<le> i then Inl (DstReadOutside i)
      else if maxDstLen \<le> length out then Inl (DstWriteOutside (length out))
      else Inr (out @ [out ! i]))"

text \<open>
  \<^verbatim>\<open>const uint8_t* mSrc = dst + mPos; do { *op++ = *mSrc++; } while (--mLen > 0);\<close>
  A \<open>mLen\<close> of 0 would wrap to \<open>2 ^ 64 - 1\<close>.
\<close>

function match_copy :: "nat \<Rightarrow> byte list \<Rightarrow> nat \<Rightarrow> nat \<Rightarrow> outcome + byte list" where
  "match_copy maxDstLen out mSrc mLen =
     (case put_dst maxDstLen out mSrc of
        Inl e \<Rightarrow> Inl e
      | Inr out' \<Rightarrow>
          (let mLen' = (if mLen = 0 then 2 ^ 64 - 1 else mLen - 1)
           in if 0 < mLen' then match_copy maxDstLen out' (mSrc + 1) mLen' else Inr out'))"
  by pat_completeness auto
termination
  by (relation "measure (\<lambda>(maxDstLen, out, mSrc, mLen). maxDstLen - length out)")
     (auto simp: put_dst_def split: if_splits)

declare match_copy.simps [simp del]

text \<open>One \<^verbatim>\<open>*op++ = *ip++\<close>.\<close>

definition put_lit :: "byte list \<Rightarrow> nat \<Rightarrow> nat \<times> byte list \<Rightarrow> outcome + nat \<times> byte list" where
  "put_lit src maxDstLen c =
     (case c of (ip, out) \<Rightarrow>
        if length src \<le> ip then Inl (SrcReadOutside ip)
        else if maxDstLen \<le> length out then Inl (DstWriteOutside (length out))
        else Inr (ip + 1, out @ [src ! ip]))"

subsection \<open>Match tokens\<close>

text \<open>
  What the match-handling loop has read once a token's bytes are consumed: the new read
  cursor, and the resolved source position \<open>mPos\<close> (with \<open>mLen\<close> for M2, M3 and M4).
\<close>

datatype token =
    EndOfStream nat
  | LongMatch nat nat nat   \<comment> \<open>\<open>ip\<close>, \<open>mPos\<close>, \<open>mLen\<close>: M2, M3, M4\<close>
  | ShortMatch nat nat nat  \<comment> \<open>\<open>ip\<close>, \<open>mPos\<close>, number of bytes: M1\<close>

text \<open>The optional run of zero bytes extending \<open>mLen\<close>, then \<open>mLen += bias + *ip++\<close>.\<close>

definition extend_len :: "byte list \<Rightarrow> byte list \<Rightarrow> nat \<Rightarrow> nat \<Rightarrow> nat \<Rightarrow> outcome + nat \<times> nat" where
  "extend_len src out ip mLen bias =
     (if mLen = 0 then
        (case zero_run src out ip mLen of
           Inl e \<Rightarrow> Inl e
         | Inr (ip', mLen') \<Rightarrow> Inr (ip' + 1, mLen' + (bias + unat (src ! ip'))))
      else Inr (ip, mLen))"

text \<open>\<open>(ip[0] >> 2) + (ip[1] << 6)\<close>\<close>

definition dist2 :: "byte \<Rightarrow> byte \<Rightarrow> nat" where
  "dist2 b0 b1 = drop_bit 2 (unat b0) + push_bit 6 (unat b1)"

text \<open>The M1 match read at \<open>first_literal_run\<close> (lines 146-149).\<close>

definition decode_m1_direct :: "byte list \<Rightarrow> byte list \<Rightarrow> nat \<Rightarrow> u32 \<Rightarrow> outcome + token" where
  "decode_m1_direct src out ip t =
     (let mPos = size_sub (size_sub (length out) 1) 0x800;
          mPos = size_sub mPos (unat (drop_bit 2 t))
      in if length src \<le> ip then Inl (Returned INPUT_OVERRUN 0 out)
         else Inr (ShortMatch (ip + 1) (size_sub mPos (push_bit 2 (unat (src ! ip)))) 3))"

text \<open>The four branches of the match-handling loop, up to the validation of \<open>mPos\<close> (lines 169-223).\<close>

definition decode_match :: "byte list \<Rightarrow> byte list \<Rightarrow> nat \<Rightarrow> u32 \<Rightarrow> outcome + token" where
  "decode_match src out ip t =
     (if 64 \<le> t then
        (let mPos = size_sub (length out) 1;
             mPos = size_sub mPos (unat (drop_bit 2 t AND 7))
         in if length src \<le> ip then Inl (Returned INPUT_OVERRUN 0 out)
            else Inr (LongMatch (ip + 1) (size_sub mPos (push_bit 3 (unat (src ! ip))))
                        (unat (drop_bit 5 t - 1 + 3))))
      else if 32 \<le> t then
        (case extend_len src out ip (unat (t AND 31)) 31 of
           Inl e \<Rightarrow> Inl e
         | Inr (ip, mLen) \<Rightarrow>
             if length src < ip + 2 then Inl (Returned INPUT_OVERRUN 0 out)
             else Inr (LongMatch (ip + 2)
                         (size_sub (size_sub (length out) 1) (dist2 (src ! ip) (src ! (ip + 1))))
                         (mLen + 2)))
      else if 16 \<le> t then
        (let mPos = size_sub (length out) (unat (push_bit 11 (t AND 8)))
         in case extend_len src out ip (unat (t AND 7)) 7 of
              Inl e \<Rightarrow> Inl e
            | Inr (ip, mLen) \<Rightarrow>
                if length src < ip + 2 then Inl (Returned INPUT_OVERRUN 0 out)
                else let mPos = size_sub mPos (dist2 (src ! ip) (src ! (ip + 1)))
                     in if mPos = length out then Inr (EndOfStream (ip + 2))
                        else Inr (LongMatch (ip + 2) (size_sub mPos 0x4000) (mLen + 2)))
      else
        (let mPos = size_sub (length out) 1;
             mPos = size_sub mPos (unat (drop_bit 2 t))
         in if length src \<le> ip then Inl (Returned INPUT_OVERRUN 0 out)
            else Inr (ShortMatch (ip + 1) (size_sub mPos (push_bit 2 (unat (src ! ip)))) 2)))"

text \<open>
  What follows the decoding of a token: the end-of-stream return (lines 211-215), the
  validation of \<open>mPos\<close>, the output check and the copy (lines 151-158, 225-231, 237-249).
\<close>

definition exec_match :: "nat \<Rightarrow> byte list \<Rightarrow> u32 \<Rightarrow> token \<Rightarrow> outcome + label \<times> lzo_state" where
  "exec_match maxDstLen out t tok =
     (case tok of
        EndOfStream ip \<Rightarrow> Inl (Returned OK (length out) out)
      | LongMatch ip mPos mLen \<Rightarrow>
          if length out \<le> mPos then Inl (Returned LOOKBEHIND_OVERRUN 0 out)
          else if maxDstLen < length out + mLen then Inl (Returned OUTPUT_OVERRUN 0 out)
          else (case match_copy maxDstLen out mPos mLen of
                  Inl e \<Rightarrow> Inl e
                | Inr out' \<Rightarrow> Inr (MatchDone, \<lparr>ip_off = ip, dst_buf = out', t_reg = t\<rparr>))
      | ShortMatch ip mPos n \<Rightarrow>
          if length out \<le> mPos then Inl (Returned LOOKBEHIND_OVERRUN 0 out)
          else if maxDstLen < length out + n then Inl (Returned OUTPUT_OVERRUN 0 out)
          else (case put_dst maxDstLen out mPos of
                  Inl e \<Rightarrow> Inl e
                | Inr out1 \<Rightarrow>
                   (case put_dst maxDstLen out1 (mPos + 1) of
                      Inl e \<Rightarrow> Inl e
                    | Inr out2 \<Rightarrow>
                       if n = 2 then Inr (MatchDone, \<lparr>ip_off = ip, dst_buf = out2, t_reg = t\<rparr>)
                       else (case put_dst maxDstLen out2 (mPos + 2) of
                               Inl e \<Rightarrow> Inl e
                             | Inr out3 \<Rightarrow>
                                 Inr (MatchDone, \<lparr>ip_off = ip, dst_buf = out3, t_reg = t\<rparr>)))))"

subsection \<open>The labelled blocks of the decoder\<close>

text \<open>The two bounds checks and the copy of a literal run of \<open>t\<close> bytes, which leads to
  \<open>first_literal_run\<close> (lines 113-118 and 133-139).\<close>

definition copy_literals ::
  "byte list \<Rightarrow> nat \<Rightarrow> byte list \<Rightarrow> nat \<Rightarrow> u32 \<Rightarrow> outcome + label \<times> lzo_state" where
  "copy_literals src maxDstLen out ip t =
     (if maxDstLen < length out + unat t then Inl (Returned OUTPUT_OVERRUN 0 out)
      else if length src < ip + unat t then Inl (Returned INPUT_OVERRUN 0 out)
      else (case lit_copy src maxDstLen ip out t of
              Inl e \<Rightarrow> Inl e
            | Inr (ip, out) \<Rightarrow>
                Inr (FirstLiteralRun, \<lparr>ip_off = ip, dst_buf = out, t_reg = 0\<rparr>)))"

text \<open>Top of the outer loop: the literal run (lines 123-139), or on to the match loop.\<close>

definition main_loop :: "byte list \<Rightarrow> nat \<Rightarrow> lzo_state \<Rightarrow> outcome + label \<times> lzo_state" where
  "main_loop src maxDstLen s =
     (let out = dst_buf s; ip = ip_off s; t = t_reg s in
      if t < 16 then
        (case (if t = 0 then
                 (case zero_run src out ip t of
                    Inl e \<Rightarrow> Inl e
                  | Inr (ip', t') \<Rightarrow> Inr (ip' + 1, t' + (15 + ucast (src ! ip'))))
               else Inr (ip, t)) of
           Inl e \<Rightarrow> Inl e
         | Inr (ip, t) \<Rightarrow> copy_literals src maxDstLen out ip (t + 3))
      else Inr (MatchLoop, s))"

text \<open>\<open>first_literal_run:\<close> (lines 141-161).\<close>

definition first_literal_run :: "byte list \<Rightarrow> nat \<Rightarrow> lzo_state \<Rightarrow> outcome + label \<times> lzo_state" where
  "first_literal_run src maxDstLen s =
     (let out = dst_buf s; ip = ip_off s in
      if length src \<le> ip then Inl (Returned INPUT_OVERRUN 0 out)
      else
        (let t = ucast (src ! ip); ip = ip + 1 in
         if t < 16 then
           (case decode_m1_direct src out ip t of
              Inl e \<Rightarrow> Inl e
            | Inr tok \<Rightarrow> exec_match maxDstLen out t tok)
         else Inr (MatchLoop, \<lparr>ip_off = ip, dst_buf = out, t_reg = t\<rparr>)))"

text \<open>Top of the match-handling loop (lines 165-249).\<close>

definition match_loop :: "byte list \<Rightarrow> nat \<Rightarrow> lzo_state \<Rightarrow> outcome + label \<times> lzo_state" where
  "match_loop src maxDstLen s =
     (case decode_match src (dst_buf s) (ip_off s) (t_reg s) of
        Inl e \<Rightarrow> Inl e
      | Inr tok \<Rightarrow> exec_match maxDstLen (dst_buf s) (t_reg s) tok)"

text \<open>\<open>match_done:\<close> \<^verbatim>\<open>t = ip[-2] & 3; if (t == 0) break;\<close>  The \<open>break\<close> leaves for the top
  of the outer loop, which reads no byte before it tests \<open>t\<close>.\<close>

definition match_done :: "byte list \<Rightarrow> nat \<Rightarrow> lzo_state \<Rightarrow> outcome + label \<times> lzo_state" where
  "match_done src maxDstLen s =
     (let ip = ip_off s in
      if ip < 2 \<or> length src \<le> ip - 2 then Inl (SrcReadOutside (ip - 2))
      else
        (let t = ucast (src ! (ip - 2)) AND 3 in
         if t = 0 then Inr (MainLoop, s\<lparr>t_reg := t\<rparr>)
         else Inr (MatchNext, s\<lparr>t_reg := t\<rparr>)))"

text \<open>\<open>match_next:\<close> the trailing literals and the next control byte (lines 255-268).\<close>

definition match_next :: "byte list \<Rightarrow> nat \<Rightarrow> lzo_state \<Rightarrow> outcome + label \<times> lzo_state" where
  "match_next src maxDstLen s =
     (let out = dst_buf s; ip = ip_off s; t = t_reg s in
      if maxDstLen < length out + unat t then Inl (Returned OUTPUT_OVERRUN 0 out)
      else if length src < ip + unat t then Inl (Returned INPUT_OVERRUN 0 out)
      else
        (case put_lit src maxDstLen (ip, out) of
           Inl e \<Rightarrow> Inl e
         | Inr c1 \<Rightarrow>
            (case (if 1 < t then
                     (case put_lit src maxDstLen c1 of
                        Inl e \<Rightarrow> Inl e
                      | Inr c2 \<Rightarrow> if 2 < t then put_lit src maxDstLen c2 else Inr c2)
                   else Inr c1) of
               Inl e \<Rightarrow> Inl e
             | Inr (ip, out) \<Rightarrow>
                 if length src \<le> ip then Inl (Returned INPUT_OVERRUN 0 out)
                 else Inr (MatchLoop, \<lparr>ip_off = ip + 1, dst_buf = out, t_reg = ucast (src ! ip)\<rparr>))))"

definition step :: "byte list \<Rightarrow> nat \<Rightarrow> label \<Rightarrow> lzo_state \<Rightarrow> outcome + label \<times> lzo_state" where
  "step src maxDstLen l s =
     (case l of
        MainLoop \<Rightarrow> main_loop src maxDstLen s
      | FirstLiteralRun \<Rightarrow> first_literal_run src maxDstLen s
      | MatchLoop \<Rightarrow> match_loop src maxDstLen s
      | MatchDone \<Rightarrow> match_done src maxDstLen s
      | MatchNext \<Rightarrow> match_next src maxDstLen s)"


subsection \<open>Running the blocks\<close>

fun tok_ip :: "token \<Rightarrow> nat" where
  "tok_ip (EndOfStream ip) = ip"
| "tok_ip (LongMatch ip mPos mLen) = ip"
| "tok_ip (ShortMatch ip mPos n) = ip"

fun tok_pos :: "token \<Rightarrow> nat" where
  "tok_pos (EndOfStream ip) = 0"
| "tok_pos (LongMatch ip mPos mLen) = mPos"
| "tok_pos (ShortMatch ip mPos n) = mPos"

definition rank :: "label \<Rightarrow> nat" where
  "rank l = (case l of MatchDone \<Rightarrow> 2 | MainLoop \<Rightarrow> 1 | _ \<Rightarrow> 0)"

text \<open>
  The decoder follows the jumps from block to block until one of them returns.  Every block
  either moves the read cursor forward inside the source or passes on to a block of lower
  rank, so the run is finite.
\<close>

function run :: "byte list \<Rightarrow> nat \<Rightarrow> label \<Rightarrow> lzo_state \<Rightarrow> outcome" where
  "run src maxDstLen l s =
     (case step src maxDstLen l s of Inl r \<Rightarrow> r | Inr (l', s') \<Rightarrow> run src maxDstLen l' s')"
  by pat_completeness auto
termination
proof (relation "inv_image (less_than <*lex*> less_than)
                   (\<lambda>(src, maxDstLen, l, s). (length src - ip_off s, rank l))")
  show "wf (inv_image (less_than <*lex*> less_than)
             (\<lambda>(src :: byte list, maxDstLen :: nat, l, s). (length src - ip_off s, rank l)))"
    by (intro wf_inv_image wf_lex_prod wf_less_than)
next
  fix src :: "byte list" and maxDstLen :: nat and l s b l' s'
  assume st: "step src maxDstLen l s = Inr b" and b: "(l', s') = b"
  have zr: "zero_run src out ip acc = Inr (ip', acc') \<Longrightarrow> ip \<le> ip' \<and> ip' < length src"
    for out ip ip' and acc acc' :: u32
    by (induction src out ip acc rule: zero_run.induct)
       (subst (asm) (2) zero_run.simps, auto split: if_splits)
  have zn: "zero_run src out ip n = Inr (ip', n') \<Longrightarrow> ip \<le> ip' \<and> ip' < length src"
    for out ip ip' and n n' :: nat
    by (induction src out ip n rule: zero_run.induct)
       (subst (asm) (2) zero_run.simps, auto split: if_splits)
  have lc: "lit_copy src maxDstLen ip out t = Inr (ip', out') \<Longrightarrow> ip < ip' \<and> ip' \<le> length src"
    for ip out t ip' out'
    by (induction src maxDstLen ip out t rule: lit_copy.induct)
       (subst (asm) (2) lit_copy.simps, auto split: if_splits)
  have el: "extend_len src out ip n bias = Inr (ip', n') \<Longrightarrow> ip \<le> ip'"
    for out ip n bias ip' n'
    by (auto simp: extend_len_def split: if_splits sum.splits dest: zn)
  have dm: "decode_match src out ip t = Inr tok \<Longrightarrow> ip < tok_ip tok \<and> tok_ip tok \<le> length src"
    for out ip t tok
    by (auto simp: decode_match_def Let_def split: if_splits sum.splits dest!: el)
  have d1: "decode_m1_direct src out ip t = Inr tok \<Longrightarrow> ip < tok_ip tok \<and> tok_ip tok \<le> length src"
    for out ip t tok
    by (auto simp: decode_m1_direct_def Let_def split: if_splits)
  have em: "exec_match maxDstLen out t tok = Inr (k, s'') \<Longrightarrow> k = MatchDone \<and> ip_off s'' = tok_ip tok"
    for out t tok k s''
    by (cases tok) (auto simp: exec_match_def split: if_splits sum.splits)
  have pl: "put_lit src maxDstLen c = Inr c' \<Longrightarrow> fst c < fst c' \<and> fst c' \<le> length src"
    for c c'
    by (auto simp: put_lit_def split: if_splits prod.splits)
  have "((length src - ip_off s', rank l'), (length src - ip_off s, rank l))
          \<in> less_than <*lex*> less_than"
  proof (cases l)
    case MainLoop
    with st b show ?thesis
      by (auto simp: step_def main_loop_def copy_literals_def rank_def Let_def
               split: if_splits sum.splits dest!: zr lc)
  next
    case FirstLiteralRun
    with st b show ?thesis
      by (auto simp: step_def first_literal_run_def rank_def Let_def
               split: if_splits sum.splits dest!: d1 em)
  next
    case MatchLoop
    with st b show ?thesis
      by (auto simp: step_def match_loop_def rank_def Let_def
               split: if_splits sum.splits dest!: dm em)
  next
    case MatchDone
    with st b show ?thesis
      by (auto simp: step_def match_done_def rank_def Let_def split: if_splits)
  next
    case MatchNext
    with st b show ?thesis
      by (auto simp: step_def match_next_def rank_def Let_def
               split: if_splits sum.splits dest!: pl)
  qed
  then show "((src, maxDstLen, l', s'), (src, maxDstLen, l, s))
               \<in> inv_image (less_than <*lex*> less_than)
                   (\<lambda>(src, maxDstLen, l, s). (length src - ip_off s, rank l))"
    by simp
qed

declare run.simps [simp del]

text \<open>The entry of \<open>decompress\<close> (lines 90-119).  The arguments are a source and a destination
  buffer that exist, so of the null tests only \<open>srcLen == 0\<close> is left; \<open>*dstLen\<close>, which the
  source leaves untouched on this return, is given as 0, the value both callers set.\<close>

definition decompress :: "byte list \<Rightarrow> nat \<Rightarrow> outcome" where
  "decompress src maxDstLen =
     (if length src = 0 then Returned INVALID_DATA 0 []
      else if length src \<le> 0 then Returned INPUT_OVERRUN 0 []
      else
        (let t = ucast (src ! 0) :: u32; ip = 1 in
         if 17 < t then
           (let t = t - 17 in
            if t < 4 then run src maxDstLen MatchNext \<lparr>ip_off = ip, dst_buf = [], t_reg = t\<rparr>
            else (case copy_literals src maxDstLen [] ip t of
                    Inl e \<Rightarrow> e
                  | Inr (l, s) \<Rightarrow> run src maxDstLen l s))
         else run src maxDstLen MainLoop \<lparr>ip_off = ip, dst_buf = [], t_reg = t\<rparr>))"

definition bytes_of :: "string \<Rightarrow> byte list" where
  "bytes_of cs = map (\<lambda>c. of_nat (of_char c)) cs"

section \<open>The nFlC container (class NFlCFile)\<close>

definition NFLC_MAGIC :: u32 where "NFLC_MAGIC = 0x436C466E"
definition CHUNK_SIZE :: nat where "CHUNK_SIZE = 0x8000"
definition MAIN_HEADER_SIZE :: nat where "MAIN_HEADER_SIZE = 64"
definition CHUNK_HEADER_SIZE :: nat where "CHUNK_HEADER_SIZE = 16"

record ChunkInfo =
  offset :: nat
  dataOffset :: nat
  dataSize :: nat
  chunkIndex :: u32
  version :: u32

record NFlCFile =
  file_data :: "byte list"          \<comment> \<open>\<open>data_\<close>\<close>
  chunks :: "ChunkInfo list"        \<comment> \<open>\<open>chunks_\<close>\<close>
  mainCompressedSize :: u32
  mainDecompressedSize :: u32
  mainFlags1 :: u32
  mainFlags2 :: u32

text \<open>A \<open>uint32_t\<close> field of a packed header, read on a little-endian machine.\<close>

definition le32 :: "byte list \<Rightarrow> nat \<Rightarrow> u32" where
  "le32 d i = ucast (d ! i) + push_bit 8 (ucast (d ! (i + 1)))
              + push_bit 16 (ucast (d ! (i + 2))) + push_bit 24 (ucast (d ! (i + 3)))"

text \<open>The buffer holds the signature in the four bytes at \<open>off\<close>.\<close>

definition magic_at :: "byte list \<Rightarrow> nat \<Rightarrow> bool" where
  "magic_at d off = (off + 4 \<le> length d \<and> le32 d off = NFLC_MAGIC)"

text \<open>The descriptor built for a header found at \<open>off\<close> (lines 337-348).  \<open>dataSize\<close> is
  left unset there; the model holds 0 until the second loop assigns it.\<close>

definition chunk_at :: "byte list \<Rightarrow> nat \<Rightarrow> ChunkInfo" where
  "chunk_at d off =
     \<lparr>offset = off,
      dataOffset = (if off = 0 then MAIN_HEADER_SIZE else off + CHUNK_HEADER_SIZE),
      dataSize = 0,
      chunkIndex = drop_bit 8 (le32 d (off + 4)) AND 0xFFFF,
      version = le32 d (off + 4)\<rparr>"

text \<open>The first loop of \<open>parseChunks\<close> (lines 325-351).  \<open>Inl\<close> is its \<open>return false\<close>, with
  the table as it is then; \<open>Inr\<close> is the table when the loop ends.  16 is
  \<open>sizeof(NFlCChunkHeader)\<close>.\<close>

function scan_headers ::
  "byte list \<Rightarrow> nat \<Rightarrow> ChunkInfo list \<Rightarrow> ChunkInfo list + ChunkInfo list" where
  "scan_headers d off cs =
     (if off < length d then
        (if length d < off + 16 then Inr cs
         else if le32 d off \<noteq> NFLC_MAGIC then
           (if off = 0 then Inl cs else scan_headers d (off + CHUNK_SIZE) cs)
         else scan_headers d (off + CHUNK_SIZE) (cs @ [chunk_at d off]))
      else Inr cs)"
  by pat_completeness auto
termination
  by (relation "measure (\<lambda>(d, off, cs). length d - off)") (auto simp: CHUNK_SIZE_def)

declare scan_headers.simps [simp del]

text \<open>The second loop (lines 354-359): \<open>dataSize\<close> is the gap to the next header, or to the
  end of the buffer, a \<open>size_t\<close> subtraction.\<close>

fun set_sizes :: "nat \<Rightarrow> ChunkInfo list \<Rightarrow> ChunkInfo list" where
  "set_sizes sz [] = []"
| "set_sizes sz [c] = [c\<lparr>dataSize := size_sub sz (dataOffset c)\<rparr>]"
| "set_sizes sz (c # c' # cs) =
     c\<lparr>dataSize := size_sub (offset c') (dataOffset c)\<rparr> # set_sizes sz (c' # cs)"

text \<open>
  \<open>parseChunks\<close> (lines 316-371) works on the object: it reads \<open>data_\<close>, and returns its
  \<open>bool\<close> together with the object as it leaves it.
\<close>

definition parseChunks :: "NFlCFile \<Rightarrow> bool \<times> NFlCFile" where
  "parseChunks f =
     (let f = f\<lparr>chunks := []\<rparr>; d = file_data f in
      if length d < MAIN_HEADER_SIZE then (False, f)
      else
        (case scan_headers d 0 (chunks f) of
           Inl cs \<Rightarrow> (False, f\<lparr>chunks := cs\<rparr>)
         | Inr cs \<Rightarrow>
             (let f = f\<lparr>chunks := set_sizes (length d) cs\<rparr>;
                  f = (if chunks f \<noteq> []
                       then f\<lparr>mainCompressedSize := le32 d 0x18,
                              mainDecompressedSize := le32 d 0x28,
                              mainFlags1 := le32 d 0x08,
                              mainFlags2 := le32 d 0x0C\<rparr>
                       else f)
              in (chunks f \<noteq> [], f))))"

text \<open>A new \<open>NFlCFile\<close> whose \<open>data_\<close> holds the bytes \<open>d\<close>, as \<open>load\<close> leaves it before it
  calls \<open>parseChunks\<close>: the other members have their initial values.\<close>

definition fresh :: "byte list \<Rightarrow> NFlCFile" where
  "fresh d = \<lparr>file_data = d, chunks = [], mainCompressedSize = 0, mainDecompressedSize = 0,
              mainFlags1 = 0, mainFlags2 = 0\<rparr>"









section \<open>Notions used to state the properties\<close>

fun is_end :: "token \<Rightarrow> bool" where
  "is_end (EndOfStream ip) = True"
| "is_end (LongMatch ip mPos mLen) = False"
| "is_end (ShortMatch ip mPos n) = False"

text \<open>
  The distance a token of the match-handling loop encodes, as a natural number that does
  not wrap: \<open>t\<close> is the control byte and \<open>ip'\<close> the read cursor after the token, so the token's
  last two bytes are \<open>src[ip' - 2]\<close> and \<open>src[ip' - 1]\<close>.
\<close>

definition distance :: "byte list \<Rightarrow> u32 \<Rightarrow> nat \<Rightarrow> nat" where
  "distance src t ip' =
     (if 64 \<le> t then 1 + unat (drop_bit 2 t AND 7) + unat (src ! (ip' - 1)) * 8
      else if 32 \<le> t then 1 + (unat (src ! (ip' - 2)) div 4 + unat (src ! (ip' - 1)) * 64)
      else if 16 \<le> t then
        unat (t AND 8) * 2048 + (unat (src ! (ip' - 2)) div 4 + unat (src ! (ip' - 1)) * 64) + 16384
      else 1 + unat t div 4 + unat (src ! (ip' - 1)) * 4)"

text \<open>The same for the M1 match that directly follows a literal run.\<close>

definition distance_m1_direct :: "byte list \<Rightarrow> u32 \<Rightarrow> nat \<Rightarrow> nat" where
  "distance_m1_direct src t ip' = 1 + 2048 + unat t div 4 + unat (src ! (ip' - 1)) * 4"


text \<open>A returned output fits the destination, and \<open>OK\<close> reports its length.\<close>

fun within :: "nat \<Rightarrow> outcome \<Rightarrow> bool" where
  "within m (Returned st n out) = (length out \<le> m \<and> (st = OK \<longrightarrow> n = length out))"
| "within m _ = True"






section \<open>Properties of the decoder\<close>

lemma run_Inl: "step src m l s = Inl r \<Longrightarrow> run src m l s = r"
  by (subst run.simps) simp

lemma run_Inr: "step src m l s = Inr (l', s') \<Longrightarrow> run src m l s = run src m l' s'"
  by (subst run.simps) simp

lemma run_eval:
  "run src m l s =
     (if isl (step src m l s) then projl (step src m l s)
      else run src m (fst (projr (step src m l s))) (snd (projr (step src m l s))))"
  by (subst run.simps) (auto split: sum.splits)

lemmas eval_defs = step_def main_loop_def copy_literals_def first_literal_run_def match_loop_def match_done_def
  match_next_def decode_match_def decode_m1_direct_def extend_len_def dist2_def size_sub_def
  exec_match_def put_dst_def put_lit_def zero_run.simps lit_copy.simps match_copy.simps

lemma size_sub_chain: "size_sub (size_sub a b) c = size_sub a (b + c)"
proof -
  have "(int (nat ((int a - int b) mod 2 ^ 64)) - int c) mod 2 ^ 64
          = ((int a - int b) mod 2 ^ 64 - int c) mod 2 ^ 64"
    by simp
  also have "\<dots> = (int a - int b - int c) mod 2 ^ 64"
    by (rule mod_diff_left_eq)
  finally show ?thesis
    by (simp add: size_sub_def algebra_simps)
qed

lemma size_sub_wrap: assumes "a < d" "d \<le> 2 ^ 64" shows "a \<le> size_sub a d"
proof -
  have "(int a - int d) mod 2 ^ 64 = (int a - int d + 2 ^ 64) mod 2 ^ 64"
    by simp
  also have "\<dots> = int a - int d + 2 ^ 64"
    using assms by (intro mod_pos_pos_trivial) auto
  finally have "(int a - int d) mod 2 ^ 64 = int a - int d + 2 ^ 64" .
  then show ?thesis using assms by (simp add: size_sub_def)
qed

lemma size_sub_exact: assumes "d \<le> a" "a < 2 ^ 64" shows "size_sub a d = a - d"
proof -
  have "(int a - int d) mod 2 ^ 64 = int a - int d"
    using assms by (intro mod_pos_pos_trivial) auto
  then show ?thesis using assms by (simp add: size_sub_def)
qed

lemma unat_byte_lt: "unat (b :: byte) < 256"
  using unsigned_less[of b, where ?'a = nat] by simp

lemma unat_u32_lt: "unat (w :: u32) < 4294967296"
  using unsigned_less[of w, where ?'a = nat] by simp

lemma dist2_eq: "dist2 b0 b1 = unat b0 div 4 + unat b1 * 64"
  by (simp add: dist2_def drop_bit_eq_div push_bit_eq_mult)

lemma shr2: "unat (drop_bit 2 (t :: u32)) = unat t div 4"
  by (simp add: drop_bit_eq_div unat_div)

lemma and8_le: "unat (t AND 8 :: u32) \<le> 8"
  using word_and_le1[of t 8] by (simp add: word_le_nat_alt)

lemma m4_high: "unat (push_bit 11 (t AND 8 :: u32)) = unat (t AND 8) * 2048"
proof -
  have "unat (push_bit 11 (t AND 8)) = take_bit 32 (push_bit 11 (unat (t AND 8)))"
    by (simp only: unsigned_push_bit_eq) simp
  also have "\<dots> = (unat (t AND 8) * 2048) mod 2 ^ 32"
    by (simp only: push_bit_eq_mult take_bit_eq_mod) simp
  also have "\<dots> = unat (t AND 8) * 2048"
    using and8_le[of t] by simp
  finally show ?thesis .
qed

lemma m4_high': "unat (push_bit 11 t AND 16384 :: u32) = unat (t AND 8) * 2048"
  using m4_high[of t] by simp

lemmas shifts = shr2 m4_high m4_high' dist2_eq push_bit_eq_mult[where ?'a = nat]

lemma decode_match_pos:
  assumes "decode_match src out ip t = Inr tok" "\<not> is_end tok"
  shows "tok_pos tok = size_sub (length out) (distance src t (tok_ip tok))"
  using assms
  by (auto simp: decode_match_def distance_def Let_def size_sub_chain shifts add_ac
       split: if_splits sum.splits)

lemma decode_m1_direct_pos:
  assumes "decode_m1_direct src out ip t = Inr tok"
  shows "tok_pos tok = size_sub (length out) (distance_m1_direct src t (tok_ip tok)) \<and> \<not> is_end tok"
  using assms
  by (auto simp: decode_m1_direct_def distance_m1_direct_def Let_def size_sub_chain shifts add_ac
       split: if_splits sum.splits)

lemma distance_le: "distance src t ip' \<le> 2 ^ 64"
  using unat_byte_lt[of "src ! (ip' - 1)"] unat_byte_lt[of "src ! (ip' - 2)"] unat_u32_lt[of t]
    and8_le[of t] unat_u32_lt[of "drop_bit 2 t AND 7"]
  by (auto simp: distance_def)

lemma distance_m1_direct_le: "distance_m1_direct src t ip' \<le> 2 ^ 64"
  using unat_byte_lt[of "src ! (ip' - 1)"] unat_u32_lt[of t]
  by (auto simp: distance_m1_direct_def)

lemma exec_lookbehind:
  "\<not> is_end tok \<Longrightarrow> length out \<le> tok_pos tok \<Longrightarrow>
   exec_match m out t tok = Inl (Returned LOOKBEHIND_OVERRUN 0 out)"
  by (cases tok) (simp_all add: exec_match_def)

lemma take1_drop: "i < length xs \<Longrightarrow> take 1 (drop i xs) = [xs ! i]"
  by (simp add: take_Suc_conv_app_nth)

lemma take2_drop: "i + 1 < length xs \<Longrightarrow> take 2 (drop i xs) = [xs ! i, xs ! (i + 1)]"
proof -
  assume a: "i + 1 < length xs"
  have "take 2 (drop i xs) = take (Suc (Suc 0)) (drop i xs)"
    by (simp add: numeral_2_eq_2)
  also have "\<dots> = take (Suc 0) (drop i xs) @ [drop i xs ! Suc 0]"
    using a by (subst take_Suc_conv_app_nth) auto
  also have "\<dots> = [xs ! i, xs ! (i + 1)]"
    using a by (simp add: take_Suc_conv_app_nth)
  finally show ?thesis .
qed

lemma take3_drop:
  "i + 2 < length xs \<Longrightarrow> take 3 (drop i xs) = [xs ! i, xs ! (i + 1), xs ! (i + 2)]"
proof -
  assume a: "i + 2 < length xs"
  have "take 3 (drop i xs) = take (Suc 2) (drop i xs)"
    by (simp add: numeral_3_eq_3 numeral_2_eq_2)
  also have "\<dots> = take 2 (drop i xs) @ [drop i xs ! 2]"
    using a by (subst take_Suc_conv_app_nth) auto
  also have "\<dots> = [xs ! i, xs ! (i + 1), xs ! (i + 2)]"
    using a by (simp add: take2_drop)
  finally show ?thesis .
qed

lemma and3_cases:
  fixes w :: u32
  assumes "w AND 3 \<noteq> 0"
  shows "w AND 3 = 1 \<or> w AND 3 = 2 \<or> w AND 3 = 3"
proof -
  have "unat (w AND 3) \<le> 3"
    using word_and_le1[of w 3] by (simp add: word_le_nat_alt)
  moreover have "unat (w AND 3) \<noteq> 0"
    using assms by (simp add: unat_eq_0)
  ultimately have "unat (w AND 3) = 1 \<or> unat (w AND 3) = 2 \<or> unat (w AND 3) = 3"
    by linarith
  then show ?thesis
    by (simp add: word_unat_eq_iff)
qed

lemma match_next_step:
  assumes t: "t = 1 \<or> t = 2 \<or> t = 3"
      and room: "length out + unat t \<le> m" and avail: "ip + unat t \<le> length src"
  shows "step src m MatchNext \<lparr>ip_off = ip, dst_buf = out, t_reg = t\<rparr> =
           (if length src \<le> ip + unat t
              then Inl (Returned INPUT_OVERRUN 0 (out @ take (unat t) (drop ip src)))
            else Inr (MatchLoop, \<lparr>ip_off = ip + unat t + 1,
                                  dst_buf = out @ take (unat t) (drop ip src),
                                  t_reg = ucast (src ! (ip + unat t))\<rparr>))"
proof -
  consider "t = 1" | "t = 2" | "t = 3"
    using t by blast
  then show ?thesis
  proof cases
    case 1
    have lits: "take (unat t) (drop ip src) = [src ! ip]"
      using 1 avail take1_drop[of ip src] by simp
    show ?thesis
      unfolding lits using 1 room avail
      by (simp add: step_def match_next_def put_lit_def)
  next
    case 2
    have lits: "take (unat t) (drop ip src) = [src ! ip, src ! (ip + 1)]"
      using 2 avail take2_drop[of ip src] by simp
    show ?thesis
      unfolding lits using 2 room avail
      by (simp add: step_def match_next_def put_lit_def)
  next
    case 3
    have lits: "take (unat t) (drop ip src) = [src ! ip, src ! (ip + 1), src ! (ip + 2)]"
      using 3 avail take3_drop[of ip src] by simp
    have e3: "Suc (Suc (Suc ip)) = ip + 3"
      by simp
    show ?thesis
      unfolding lits using 3 room avail
      by (simp add: step_def match_next_def put_lit_def e3)
  qed
qed

lemma match_next_full:
  "step src m MatchNext \<lparr>ip_off = ip, dst_buf = out, t_reg = t\<rparr> =
     Inl (Returned OUTPUT_OVERRUN 0 out)" if "m < length out + unat t"
  using that by (simp add: step_def match_next_def)

lemma match_next_short:
  "step src m MatchNext \<lparr>ip_off = ip, dst_buf = out, t_reg = t\<rparr> =
     Inl (Returned INPUT_OVERRUN 0 out)" if "\<not> m < length out + unat t" "length src < ip + unat t"
  using that by (simp add: step_def match_next_def)

lemma zero_run_replicate:
  fixes acc :: u32
  assumes "b \<noteq> 0"
  shows "zero_run (pre @ replicate k 0 @ b # rest) out (length pre) acc
           = Inr (length pre + k, acc + 255 * of_nat k)"
proof (induction k arbitrary: pre acc)
  case 0
  show ?case using assms by (subst zero_run.simps) simp
next
  case (Suc k)
  have "zero_run (pre @ replicate (Suc k) 0 @ b # rest) out (length pre) acc
          = zero_run ((pre @ [0]) @ replicate k 0 @ b # rest) out (length (pre @ [0])) (acc + 255)"
    by (subst zero_run.simps) (simp add: nth_append)
  also have "\<dots> = Inr (length (pre @ [0]) + k, acc + 255 + 255 * of_nat k)"
    by (rule Suc.IH)
  finally show ?case by (simp add: algebra_simps)
qed

lemma main_loop_extended:
  assumes "zero_run src out ip (0 :: u32) = Inr (ip', acc)"
      and "acc + (15 + ucast (src ! ip')) + 3 = tt"
      and "\<not> m < length out + unat tt" "\<not> length src < ip' + 1 + unat tt"
      and "lit_copy src m (ip' + 1) out tt = Inl e"
  shows "step src m MainLoop \<lparr>ip_off = ip, dst_buf = out, t_reg = 0\<rparr> = Inl e"
  using assms by (simp add: step_def main_loop_def copy_literals_def)

lemma literal_wrap:
  assumes "255 * of_nat k + 256 = (0 :: u32)"
  shows "decompress (0x00 # replicate k 0x00 @ [0xEE, 0x01, 0x02, 0x03]) 2 = DstWriteOutside 2"
proof -
  let ?src = "0x00 # replicate k 0x00 @ [0xEE, 0x01, 0x02, 0x03 :: byte]"
  have z: "zero_run ?src [] 1 (0 :: u32) = Inr (1 + k, 255 * of_nat k)"
    using zero_run_replicate[of "0xEE" "[0x00]" k "[0x01, 0x02, 0x03]" "[]" 0] by simp
  have nth: "?src ! (Suc k) = 0xEE" "?src ! (Suc (Suc k)) = 0x01" "?src ! (Suc (Suc (Suc k))) = 0x02"
    by (simp_all add: nth_append)
  have t0: "255 * of_nat k + (15 + ucast (?src ! (1 + k))) + 3 = (0 :: u32)"
  proof -
    have "?src ! (1 + k) = 0xEE"
      by (simp add: nth_append)
    then have "255 * of_nat k + (15 + ucast (?src ! (1 + k))) + 3 = 255 * of_nat k + (256 :: u32)"
      by simp
    with assms show ?thesis
      by (simp only:)
  qed
  have lc: "lit_copy ?src 2 (1 + k + 1) [] 0 = Inl (DstWriteOutside 2)"
    using nth by (simp add: lit_copy.simps word_gt_0)
  have "step ?src 2 MainLoop \<lparr>ip_off = 1, dst_buf = [], t_reg = 0\<rparr> = Inl (DstWriteOutside 2)"
    by (rule main_loop_extended[OF z t0 _ _ lc]) simp_all
  then have "run ?src 2 MainLoop \<lparr>ip_off = 1, dst_buf = [], t_reg = 0\<rparr> = DstWriteOutside 2"
    by (rule run_Inl)
  then show ?thesis
    by (simp add: decompress_def)
qed

lemma bytes_of_alphabet:
  "bytes_of ''ABCDEFGHIJKLMNO'' =
     [0x41, 0x42, 0x43, 0x44, 0x45, 0x46, 0x47, 0x48, 0x49, 0x4A, 0x4B, 0x4C, 0x4D, 0x4E, 0x4F]"
  by (simp add: bytes_of_def)

text \<open>
  C6.  The 19-byte stream \<open>0x20 'A' ... 'O' 0x11 0x00 0x00\<close>, decoded into a destination of
  capacity at least 15, returns \<open>OK\<close> with produced length 15 and the output \<open>ABCDEFGHIJKLMNO\<close>.
\<close>

theorem literal_run_scenario:
  assumes "15 \<le> maxDstLen"
  shows "decompress (0x20 # bytes_of ''ABCDEFGHIJKLMNO'' @ [0x11, 0x00, 0x00]) maxDstLen
           = Returned OK 15 (bytes_of ''ABCDEFGHIJKLMNO'')"
proof -
  let ?s = "[0x20, 0x41, 0x42, 0x43, 0x44, 0x45, 0x46, 0x47, 0x48, 0x49, 0x4A, 0x4B, 0x4C,
             0x4D, 0x4E, 0x4F, 0x11, 0x00, 0x00] :: byte list"
  let ?o = "[0x41, 0x42, 0x43, 0x44, 0x45, 0x46, 0x47, 0x48, 0x49, 0x4A, 0x4B, 0x4C,
             0x4D, 0x4E, 0x4F] :: byte list"
  have lc: "lit_copy ?s maxDstLen 1 [] 15 = Inr (16, ?o)"
    using assms by (simp add: lit_copy.simps)
  have s1: "step ?s maxDstLen FirstLiteralRun \<lparr>ip_off = 16, dst_buf = ?o, t_reg = 0\<rparr>
              = Inr (MatchLoop, \<lparr>ip_off = 17, dst_buf = ?o, t_reg = 0x11\<rparr>)"
    by (simp add: step_def first_literal_run_def)
  have s2: "step ?s maxDstLen MatchLoop \<lparr>ip_off = 17, dst_buf = ?o, t_reg = 0x11\<rparr>
              = Inl (Returned OK 15 ?o)"
    by (simp add: step_def match_loop_def decode_match_def extend_len_def dist2_def
          size_sub_def exec_match_def)
  have "decompress ?s maxDstLen
          = run ?s maxDstLen FirstLiteralRun \<lparr>ip_off = 16, dst_buf = ?o, t_reg = 0\<rparr>"
    using assms lc by (simp add: decompress_def copy_literals_def)
  then have "decompress ?s maxDstLen = Returned OK 15 ?o"
    by (simp add: run_Inr[OF s1] run_Inl[OF s2])
  then show ?thesis
    by (simp add: bytes_of_alphabet)
qed

theorem literal_run_scenario_witness:
  "(15 :: nat) \<le> 15 \<and>
   decompress (0x20 # bytes_of ''ABCDEFGHIJKLMNO'' @ [0x11, 0x00, 0x00]) 15
     = Returned OK 15 (bytes_of ''ABCDEFGHIJKLMNO'')"
  using literal_run_scenario [of 15] by simp

text \<open>
  C1.  A stream cut off right after a control byte whose length is to be extended: the
  literal run \<open>0x00\<close>, the M4 match \<open>0x10\<close>, and the M3 match \<open>0x20\<close> that follows four
  literals.  The decoder tests \<open>*ip == 0\<close> at \<open>src + srcLen\<close> before any bounds check; it does
  not return \<open>INPUT_OVERRUN\<close> without that read.
\<close>

theorem truncated_extension_reads_outside:
  "decompress [0x00] maxDstLen = SrcReadOutside 1 \<and>
   decompress [0x10] maxDstLen = SrcReadOutside 1 \<and>
   decompress [0x15, 0x41, 0x42, 0x43, 0x44, 0x20] 4 = SrcReadOutside 6"
proof -
  have a: "step [0x00] maxDstLen MainLoop \<lparr>ip_off = 1, dst_buf = [], t_reg = 0\<rparr>
             = Inl (SrcReadOutside 1)"
    by (simp add: step_def main_loop_def zero_run.simps)
  have b1: "step [0x10] maxDstLen MainLoop \<lparr>ip_off = 1, dst_buf = [], t_reg = 0x10\<rparr>
              = Inr (MatchLoop, \<lparr>ip_off = 1, dst_buf = [], t_reg = 0x10\<rparr>)"
    by (simp add: step_def main_loop_def)
  have b2: "step [0x10] maxDstLen MatchLoop \<lparr>ip_off = 1, dst_buf = [], t_reg = 0x10\<rparr>
              = Inl (SrcReadOutside 1)"
    by (simp add: step_def match_loop_def decode_match_def extend_len_def zero_run.simps)
  have c: "decompress [0x15, 0x41, 0x42, 0x43, 0x44, 0x20] 4 = SrcReadOutside 6"
    by code_simp
  have a': "run [0x00] maxDstLen MainLoop \<lparr>ip_off = 1, dst_buf = [], t_reg = 0\<rparr>
              = SrcReadOutside 1"
    by (rule run_Inl[OF a])
  have b': "run [0x10] maxDstLen MainLoop \<lparr>ip_off = 1, dst_buf = [], t_reg = 0x10\<rparr>
              = SrcReadOutside 1"
    by (simp only: run_Inr[OF b1] run_Inl[OF b2])
  have "decompress [0x00] maxDstLen = SrcReadOutside 1"
    using a' by (simp add: decompress_def)
  moreover have "decompress [0x10] maxDstLen = SrcReadOutside 1"
    using b' by (simp add: decompress_def)
  ultimately show ?thesis
    using c by blast
qed


text \<open>
  C2.  The length of a literal run is kept in the 32-bit \<open>t\<close>.  A control byte \<open>0x00\<close> followed
  by 16843008 zero bytes and the byte \<open>0xEE\<close> makes \<open>t + 3\<close> wrap to 0; both bounds checks
  then pass, the \<open>do ... while (--t > 0)\<close> copy starts on a run of \<open>2 ^ 32\<close> bytes, and with a
  destination of capacity 2 its third write is a write of \<open>dst[2]\<close>.
\<close>

theorem literal_length_wrap_writes_outside:
  "decompress (0x00 # replicate 16843008 0x00 @ [0xEE, 0x01, 0x02, 0x03]) 2 = DstWriteOutside 2"
  by (rule literal_wrap) simp


text \<open>
  C3, as amended.  After a match copy the number of trailing literals is the low 2 bits of
  \<open>ip[-2]\<close>, the byte two places before the read cursor (the control byte of an M1 or M2
  token, the first of the two distance bytes of an M3 or M4 token), not of the byte
  consumed last.  When that number \<open>n\<close> is not 0, the decoder checks the room for \<open>n\<close> bytes
  in the destination and in the source, copies the next \<open>n\<close> source bytes, reads the byte
  after them as the next control byte and takes it to the top of the match-handling loop.
\<close>

theorem trailing_literals:
  assumes "2 \<le> ip" "ip \<le> length src"
      and "n = unat (ucast (src ! (ip - 2)) AND (3 :: u32))"
      and "0 < n"
  shows "n \<le> 3 \<and>
         run src maxDstLen MatchDone \<lparr>ip_off = ip, dst_buf = out, t_reg = t\<rparr> =
           (if maxDstLen < length out + n then Returned OUTPUT_OVERRUN 0 out
            else if length src < ip + n then Returned INPUT_OVERRUN 0 out
            else if length src \<le> ip + n
              then Returned INPUT_OVERRUN 0 (out @ take n (drop ip src))
            else run src maxDstLen MatchLoop
                   \<lparr>ip_off = ip + n + 1, dst_buf = out @ take n (drop ip src),
                    t_reg = ucast (src ! (ip + n))\<rparr>)"
proof -
  define t' :: u32 where "t' = ucast (src ! (ip - 2)) AND 3"
  have n: "n = unat t'"
    by (simp add: assms(3) t'_def)
  have nz: "t' \<noteq> 0"
    using assms(4) n by auto
  then have c: "t' = 1 \<or> t' = 2 \<or> t' = 3"
    unfolding t'_def by (rule and3_cases)
  then have le: "n \<le> 3"
    using n by auto
  have sd: "step src maxDstLen MatchDone \<lparr>ip_off = ip, dst_buf = out, t_reg = t\<rparr>
              = Inr (MatchNext, \<lparr>ip_off = ip, dst_buf = out, t_reg = t'\<rparr>)"
    using assms(1,2) nz by (auto simp: step_def match_done_def t'_def Let_def)
  let ?s' = "\<lparr>ip_off = ip, dst_buf = out, t_reg = t'\<rparr>"
  have r1: "run src maxDstLen MatchDone \<lparr>ip_off = ip, dst_buf = out, t_reg = t\<rparr>
              = run src maxDstLen MatchNext ?s'"
    by (rule run_Inr[OF sd])
  have r2: "run src maxDstLen MatchNext ?s' =
           (if maxDstLen < length out + n then Returned OUTPUT_OVERRUN 0 out
            else if length src < ip + n then Returned INPUT_OVERRUN 0 out
            else if length src \<le> ip + n
              then Returned INPUT_OVERRUN 0 (out @ take n (drop ip src))
            else run src maxDstLen MatchLoop
                   \<lparr>ip_off = ip + n + 1, dst_buf = out @ take n (drop ip src),
                    t_reg = ucast (src ! (ip + n))\<rparr>)"
  proof (cases "maxDstLen < length out + n")
    case True
    then show ?thesis
      using run_Inl[OF match_next_full[of maxDstLen out t' src ip]] n by simp
  next
    case full: False
    show ?thesis
    proof (cases "length src < ip + n")
      case True
      then show ?thesis
        using full run_Inl[OF match_next_short[of maxDstLen out t' src ip]] n by simp
    next
      case False
      have st: "step src maxDstLen MatchNext ?s' =
           (if length src \<le> ip + n
              then Inl (Returned INPUT_OVERRUN 0 (out @ take n (drop ip src)))
            else Inr (MatchLoop, \<lparr>ip_off = ip + n + 1,
                                  dst_buf = out @ take n (drop ip src),
                                  t_reg = ucast (src ! (ip + n))\<rparr>))"
        using match_next_step[OF c, of out maxDstLen ip src] full False n by simp
      show ?thesis
      proof (cases "length src \<le> ip + n")
        case True
        with st have "step src maxDstLen MatchNext ?s'
                        = Inl (Returned INPUT_OVERRUN 0 (out @ take n (drop ip src)))"
          by simp
        from run_Inl[OF this] show ?thesis
          using full False True by simp
      next
        case more: False
        with st have "step src maxDstLen MatchNext ?s'
                        = Inr (MatchLoop, \<lparr>ip_off = ip + n + 1,
                                  dst_buf = out @ take n (drop ip src),
                                  t_reg = ucast (src ! (ip + n))\<rparr>)"
          by simp
        from run_Inr[OF this] show ?thesis
          using full False more by simp
      qed
    qed
  qed
  show ?thesis
    using le r1 r2 by simp
qed

theorem trailing_literals_witness:
  "(2::nat) \<le> 7 \<and> 7 \<le> length [0x15, 0x41, 0x42, 0x43, 0x44, 0x41, 0x00, 0x58, 0x11, 0x00, 0x00 :: byte] \<and>
   (1::nat) = unat (ucast ([0x15, 0x41, 0x42, 0x43, 0x44, 0x41, 0x00, 0x58, 0x11, 0x00, 0x00 :: byte] ! (7 - 2)) AND (3 :: u32)) \<and>
   run [0x15, 0x41, 0x42, 0x43, 0x44, 0x41, 0x00, 0x58, 0x11, 0x00, 0x00] 100 MatchDone
       \<lparr>ip_off = 7, dst_buf = [0x41, 0x42, 0x43, 0x44, 0x44, 0x44, 0x44, 0x44], t_reg = 0x41\<rparr>
     = run [0x15, 0x41, 0x42, 0x43, 0x44, 0x41, 0x00, 0x58, 0x11, 0x00, 0x00] 100 MatchLoop
       \<lparr>ip_off = 9, dst_buf = [0x41, 0x42, 0x43, 0x44, 0x44, 0x44, 0x44, 0x44, 0x58], t_reg = 0x11\<rparr>"
  using trailing_literals [where ip = 7 and n = 1 and maxDstLen = 100 and t = "0x41"
          and src = "[0x15, 0x41, 0x42, 0x43, 0x44, 0x41, 0x00, 0x58, 0x11, 0x00, 0x00]"
          and out = "[0x41, 0x42, 0x43, 0x44, 0x44, 0x44, 0x44, 0x44]"]
  by simp


text \<open>
  The claim as stated fails twice.  In \<open>0x15 'A' 'B' 'C' 'D' 0x41 0x00 'X' 0x11 0x00 0x00\<close> the M2
  token \<open>0x41 0x00\<close> ends with a byte whose low 2 bits are 0, and one trailing literal is
  copied.  In \<open>0x15 'A' 'B' 'C' 'D' 0x40 0x00 0x11 0x00 0x00\<close> the count is 0 and the next
  byte \<open>0x11\<close> is not read as a control byte: the outer loop starts over with \<open>t = 0\<close> and
  takes \<open>0x11\<close> as the extension of a literal-run length.
\<close>

theorem trailing_count_counterexample:
  "step [0x15, 0x41, 0x42, 0x43, 0x44, 0x41, 0x00, 0x58, 0x11, 0x00, 0x00] 100 MatchLoop
       \<lparr>ip_off = 6, dst_buf = [0x41, 0x42, 0x43, 0x44], t_reg = 0x41\<rparr>
     = Inr (MatchDone, \<lparr>ip_off = 7, dst_buf = [0x41, 0x42, 0x43, 0x44, 0x44, 0x44, 0x44, 0x44], t_reg = 0x41\<rparr>) \<and>
   [0x15, 0x41, 0x42, 0x43, 0x44, 0x41, 0x00, 0x58, 0x11, 0x00, 0x00 :: byte] ! (7 - 1) AND 3 = 0 \<and>
   step [0x15, 0x41, 0x42, 0x43, 0x44, 0x41, 0x00, 0x58, 0x11, 0x00, 0x00] 100 MatchDone
       \<lparr>ip_off = 7, dst_buf = [0x41, 0x42, 0x43, 0x44, 0x44, 0x44, 0x44, 0x44], t_reg = 0x41\<rparr>
     = Inr (MatchNext, \<lparr>ip_off = 7, dst_buf = [0x41, 0x42, 0x43, 0x44, 0x44, 0x44, 0x44, 0x44], t_reg = 1\<rparr>) \<and>
   decompress [0x15, 0x41, 0x42, 0x43, 0x44, 0x41, 0x00, 0x58, 0x11, 0x00, 0x00] 100
     = Returned OK 9 [0x41, 0x42, 0x43, 0x44, 0x44, 0x44, 0x44, 0x44, 0x58] \<and>
   step [0x15, 0x41, 0x42, 0x43, 0x44, 0x40, 0x00, 0x11, 0x00, 0x00] 100 MatchDone
       \<lparr>ip_off = 7, dst_buf = [0x41, 0x42, 0x43, 0x44, 0x44, 0x44, 0x44, 0x44], t_reg = 0x40\<rparr>
     = Inr (MainLoop, \<lparr>ip_off = 7, dst_buf = [0x41, 0x42, 0x43, 0x44, 0x44, 0x44, 0x44, 0x44], t_reg = 0\<rparr>) \<and>
   step [0x15, 0x41, 0x42, 0x43, 0x44, 0x40, 0x00, 0x11, 0x00, 0x00] 100 MainLoop
       \<lparr>ip_off = 7, dst_buf = [0x41, 0x42, 0x43, 0x44, 0x44, 0x44, 0x44, 0x44], t_reg = 0\<rparr>
     = Inl (Returned INPUT_OVERRUN 0 [0x41, 0x42, 0x43, 0x44, 0x44, 0x44, 0x44, 0x44]) \<and>
   decompress [0x15, 0x41, 0x42, 0x43, 0x44, 0x40, 0x00, 0x11, 0x00, 0x00] 100
     = Returned INPUT_OVERRUN 0 [0x41, 0x42, 0x43, 0x44, 0x44, 0x44, 0x44, 0x44]"
  by (simp add: decompress_def run_eval eval_defs)


text \<open>
  C4, as amended.  For an M4 match that is not the end-of-stream marker the resolved
  source position is, on \<open>size_t\<close>,
  \<open>(op - dst) - ((t & 8) << 11) - ((next0 >> 2) + (next1 << 6)) - 0x4000\<close>,
  where \<open>next0\<close> and \<open>next1\<close> are the token's last two bytes: the claim's terms and the
  constant \<open>0x4000\<close>, which the decoder subtracts after its end-of-stream test.
\<close>

theorem m4_match_position:
  assumes "16 \<le> t" "t < 32"
      and "decode_match src out ip t = Inr (LongMatch ip' mPos mLen)"
  shows "int mPos =
           (int (length out) - int (unat (push_bit 11 (t AND 8)))
              - int (drop_bit 2 (unat (src ! (ip' - 2))) + push_bit 6 (unat (src ! (ip' - 1))))
              - 0x4000) mod 2 ^ 64"
proof -
  have "\<not> is_end (LongMatch ip' mPos mLen)"
    by simp
  from decode_match_pos[OF assms(3) this]
  have "mPos = size_sub (length out) (distance src t ip')"
    by simp
  moreover have "distance src t ip' = unat (push_bit 11 (t AND 8))
      + (drop_bit 2 (unat (src ! (ip' - 2))) + push_bit 6 (unat (src ! (ip' - 1)))) + 0x4000"
  proof -
    have "\<not> 32 \<le> t" "\<not> 64 \<le> t"
      using assms(2) by (auto simp: word_le_nat_alt word_less_nat_alt)
    then show ?thesis
      using assms(1)
      by (simp add: distance_def m4_high m4_high' push_bit_eq_mult[where ?'a = nat]
            drop_bit_eq_div[where ?'a = nat])
  qed
  ultimately show ?thesis
    by (simp add: size_sub_def algebra_simps)
qed

theorem m4_match_position_witness:
  "(16 :: u32) \<le> 0x11 \<and> (0x11 :: u32) < 32 \<and>
   decode_match [0x11, 0x04, 0x00] (replicate 20000 0x41) 1 0x11 = Inr (LongMatch 3 3615 3) \<and>
   (3615 :: int) = (int (length (replicate 20000 (0x41 :: byte))) - int (unat (push_bit 11 (0x11 AND 8 :: u32)))
              - int (drop_bit 2 (unat ([0x11, 0x04, 0x00 :: byte] ! (3 - 2))) + push_bit 6 (unat ([0x11, 0x04, 0x00 :: byte] ! (3 - 1))))
              - 0x4000) mod 2 ^ 64"
proof -
  have d: "decode_match [0x11, 0x04, 0x00] (replicate 20000 0x41) 1 0x11 = Inr (LongMatch 3 3615 3)"
    by (simp add: decode_match_def extend_len_def dist2_def size_sub_def)
  show ?thesis
    using d m4_match_position [of "0x11" "[0x11, 0x04, 0x00]" "replicate 20000 0x41" 1 3 3615 3]
    by simp
qed


text \<open>
  With 20000 bytes of output the token \<open>0x11 0x04 0x00\<close> resolves to position 3615, not to
  the claim's \<open>20000 - 0 - 1\<close>; with 15 bytes of output, where the claim's position 14 is a
  byte already written, the decoder returns LOOKBEHIND_OVERRUN.
\<close>

theorem m4_match_position_counterexample:
  "decode_match [0x11, 0x04, 0x00] (replicate 20000 0x41) 1 0x11 = Inr (LongMatch 3 3615 3) \<and>
   (3615 :: int) \<noteq> int (length (replicate 20000 (0x41 :: byte))) - int (unat (push_bit 11 (0x11 AND 8 :: u32)))
                   - int (dist2 0x04 0x00) \<and>
   decompress (0x20 # bytes_of ''ABCDEFGHIJKLMNO'' @ [0x11, 0x04, 0x00]) 100
     = Returned LOOKBEHIND_OVERRUN 0 (bytes_of ''ABCDEFGHIJKLMNO'') \<and>
   (0 :: int) \<le> int (length (bytes_of ''ABCDEFGHIJKLMNO'')) - int (unat (push_bit 11 (0x11 AND 8 :: u32)))
                   - int (dist2 0x04 0x00)"
proof -
  have d: "decode_match [0x11, 0x04, 0x00] (replicate 20000 0x41) 1 0x11 = Inr (LongMatch 3 3615 3)"
    by (simp add: decode_match_def extend_len_def dist2_def size_sub_def)
  have e: "decompress (0x20 # bytes_of ''ABCDEFGHIJKLMNO'' @ [0x11, 0x04, 0x00]) 100
     = Returned LOOKBEHIND_OVERRUN 0 (bytes_of ''ABCDEFGHIJKLMNO'')"
  proof -
    have "decompress [0x20, 0x41, 0x42, 0x43, 0x44, 0x45, 0x46, 0x47, 0x48, 0x49, 0x4A, 0x4B, 0x4C, 0x4D, 0x4E, 0x4F, 0x11, 0x04, 0x00] 100
      = Returned LOOKBEHIND_OVERRUN 0 [0x41, 0x42, 0x43, 0x44, 0x45, 0x46, 0x47, 0x48, 0x49, 0x4A, 0x4B, 0x4C, 0x4D, 0x4E, 0x4F]"
      by (simp add: decompress_def run_eval eval_defs)
    then show ?thesis by (simp add: bytes_of_alphabet)
  qed
  have f: "dist2 0x04 0x00 = 1"
    by (simp add: dist2_def)
  have g: "unat (push_bit 11 (0x11 AND 8 :: u32)) = 0"
    by simp
  have h: "length (bytes_of ''ABCDEFGHIJKLMNO'') = 15"
    by (simp add: bytes_of_def)
  show ?thesis
    unfolding f g h using d e by simp
qed


text \<open>
  C5.  Whenever a match token other than the end-of-stream marker has been read in full and
  its resolved source position is, as a \<open>size_t\<close>, at or past the output cursor, the decoder
  returns LOOKBEHIND_OVERRUN and the destination is as it was before the token.  The
  resolved position is the cursor minus the encoded distance on \<open>size_t\<close>, so a distance
  larger than the cursor (a negative position) is at or past the cursor too: it never
  becomes a copy.  The first half is about the tokens of the match-handling loop, the second
  about the M1 match read directly after a literal run.
\<close>

theorem lookbehind_safety:
  "(decode_match src out ip t = Inr tok \<and> \<not> is_end tok \<and>
      (length out \<le> tok_pos tok \<or> length out < distance src t (tok_ip tok))
    \<longrightarrow> tok_pos tok = size_sub (length out) (distance src t (tok_ip tok)) \<and>
        run src maxDstLen MatchLoop \<lparr>ip_off = ip, dst_buf = out, t_reg = t\<rparr>
          = Returned LOOKBEHIND_OVERRUN 0 out)
   \<and>
   (ip < length src \<and> ucast (src ! ip) < (16 :: u32) \<and>
      decode_m1_direct src out (ip + 1) (ucast (src ! ip)) = Inr tok' \<and>
      (length out \<le> tok_pos tok' \<or> length out < distance_m1_direct src (ucast (src ! ip)) (tok_ip tok'))
    \<longrightarrow> tok_pos tok' = size_sub (length out) (distance_m1_direct src (ucast (src ! ip)) (tok_ip tok')) \<and>
        run src maxDstLen FirstLiteralRun \<lparr>ip_off = ip, dst_buf = out, t_reg = t0\<rparr>
          = Returned LOOKBEHIND_OVERRUN 0 out)"
proof (intro conjI impI)
  assume h: "decode_match src out ip t = Inr tok \<and> \<not> is_end tok \<and>
      (length out \<le> tok_pos tok \<or> length out < distance src t (tok_ip tok))"
  then show p: "tok_pos tok = size_sub (length out) (distance src t (tok_ip tok))"
    using decode_match_pos by blast
  have "length out \<le> tok_pos tok"
    using h p size_sub_wrap[OF _ distance_le] by auto
  then have "step src maxDstLen MatchLoop \<lparr>ip_off = ip, dst_buf = out, t_reg = t\<rparr>
               = Inl (Returned LOOKBEHIND_OVERRUN 0 out)"
    using h by (simp add: step_def match_loop_def exec_lookbehind)
  then show "run src maxDstLen MatchLoop \<lparr>ip_off = ip, dst_buf = out, t_reg = t\<rparr>
               = Returned LOOKBEHIND_OVERRUN 0 out"
    by (rule run_Inl)
next
  let ?t = "ucast (src ! ip) :: u32"
  assume h: "ip < length src \<and> ?t < 16 \<and>
      decode_m1_direct src out (ip + 1) ?t = Inr tok' \<and>
      (length out \<le> tok_pos tok' \<or> length out < distance_m1_direct src ?t (tok_ip tok'))"
  then show p: "tok_pos tok' = size_sub (length out) (distance_m1_direct src ?t (tok_ip tok'))"
    using decode_m1_direct_pos by blast
  have e: "\<not> is_end tok'"
    using h decode_m1_direct_pos by blast
  have "length out \<le> tok_pos tok'"
    using h p size_sub_wrap[OF _ distance_m1_direct_le] by auto
  then have "step src maxDstLen FirstLiteralRun \<lparr>ip_off = ip, dst_buf = out, t_reg = t0\<rparr>
               = Inl (Returned LOOKBEHIND_OVERRUN 0 out)"
    using h e by (simp add: step_def first_literal_run_def exec_lookbehind)
  then show "run src maxDstLen FirstLiteralRun \<lparr>ip_off = ip, dst_buf = out, t_reg = t0\<rparr>
               = Returned LOOKBEHIND_OVERRUN 0 out"
    by (rule run_Inl)
qed

theorem lookbehind_safety_witness:
  "decode_match (0x20 # bytes_of ''ABCDEFGHIJKLMNO'' @ [0x11, 0x04, 0x00]) (bytes_of ''ABCDEFGHIJKLMNO'') 17 0x11
     = Inr (LongMatch 19 18446744073709535246 3) \<and>
   \<not> is_end (LongMatch 19 18446744073709535246 3) \<and>
   length (bytes_of ''ABCDEFGHIJKLMNO'')
     < distance (0x20 # bytes_of ''ABCDEFGHIJKLMNO'' @ [0x11, 0x04, 0x00]) 0x11 19 \<and>
   run (0x20 # bytes_of ''ABCDEFGHIJKLMNO'' @ [0x11, 0x04, 0x00]) 100 MatchLoop
       \<lparr>ip_off = 17, dst_buf = bytes_of ''ABCDEFGHIJKLMNO'', t_reg = 0x11\<rparr>
     = Returned LOOKBEHIND_OVERRUN 0 (bytes_of ''ABCDEFGHIJKLMNO'') \<and>
   decode_m1_direct (0x15 # bytes_of ''ABCD'' @ [0x00, 0x00]) (bytes_of ''ABCD'') 6 0
     = Inr (ShortMatch 7 18446744073709549571 3) \<and>
   length (bytes_of ''ABCD'') \<le> 18446744073709549571 \<and>
   run (0x15 # bytes_of ''ABCD'' @ [0x00, 0x00]) 100 FirstLiteralRun
       \<lparr>ip_off = 5, dst_buf = bytes_of ''ABCD'', t_reg = 0\<rparr>
     = Returned LOOKBEHIND_OVERRUN 0 (bytes_of ''ABCD'')"
proof -
  let ?S = "0x20 # bytes_of ''ABCDEFGHIJKLMNO'' @ [0x11, 0x04, 0x00]"
  let ?O = "bytes_of ''ABCDEFGHIJKLMNO''"
  let ?S' = "0x15 # bytes_of ''ABCD'' @ [0x00, 0x00]"
  let ?O' = "bytes_of ''ABCD''"
  have d: "decode_match ?S ?O 17 0x11 = Inr (LongMatch 19 18446744073709535246 3)"
    by (simp add: bytes_of_alphabet decode_match_def extend_len_def dist2_def size_sub_def)
  have l: "length ?O < distance ?S 0x11 19"
    by (simp add: bytes_of_alphabet distance_def)
  have d': "decode_m1_direct ?S' ?O' 6 0 = Inr (ShortMatch 7 18446744073709549571 3)"
    by (simp add: bytes_of_def decode_m1_direct_def size_sub_def)
  have t: "ucast (?S' ! 5) = (0 :: u32)" "5 < length ?S'"
    by (simp_all add: bytes_of_def)
  have l': "length ?O' \<le> 18446744073709549571"
    by (simp add: bytes_of_def)
  show ?thesis
    using d l d' l' t
      lookbehind_safety [of ?S ?O 17 "0x11" "LongMatch 19 18446744073709535246 3" 100
                            "ShortMatch 7 18446744073709549571 3" 0]
      lookbehind_safety [of ?S' ?O' 5 "0x11" "LongMatch 19 18446744073709535246 3" 100
                            "ShortMatch 7 18446744073709549571 3" 0]
    by simp
qed



subsection \<open>The decoder stays within its destination when it returns\<close>




lemma put_lit_within:
  "length (snd c) \<le> m \<Longrightarrow>
   (put_lit src m c = Inl r \<longrightarrow> within m r) \<and> (put_lit src m c = Inr c' \<longrightarrow> length (snd c') \<le> m)"
  by (cases c) (auto simp: put_lit_def)











subsection \<open>No write outside the destination while the literal length cannot wrap\<close>

text \<open>
  A run of zero bytes adds 255 to \<open>t\<close> per byte, so a source of at most 16843008 bytes keeps
  the length of every literal run below \<open>2 ^ 32\<close>.  For such a source each copy stays
  within the room its check has found: the instrumented decoder never writes at or past
  \<open>maxDstLen\<close>, whatever the capacity.
\<close>

lemma lit_copy_safe:
  "t \<noteq> 0 \<Longrightarrow> length out + unat t \<le> m \<Longrightarrow> lit_copy src m ip out t \<noteq> Inl (DstWriteOutside i)"
proof (induction src m ip out t rule: lit_copy.induct)
  case (1 src m ip out t)
  have pos: "0 < unat t"
    using "1.prems"(1) by (simp add: unat_gt_0)
  show ?case
  proof (cases "length src \<le> ip")
    case True
    then show ?thesis by (subst lit_copy.simps) simp
  next
    case False
    have room: "\<not> m \<le> length out"
      using pos "1.prems"(2) by linarith
    show ?thesis
    proof (cases "0 < t - 1")
      case True
      have "unat (t - 1) = unat t - 1"
        using "1.prems"(1) by (simp add: unat_minus_one)
      then have "length (out @ [src ! ip]) + unat (t - 1) \<le> m"
        using pos "1.prems"(2) by simp
      moreover have "t - 1 \<noteq> 0"
        using True by auto
      ultimately show ?thesis
        using "1.IH"[OF False room True] False room True
        by (subst lit_copy.simps) simp
    next
      case nt: False
      then show ?thesis
        using False room by (subst lit_copy.simps) simp
    qed
  qed
qed

lemma match_copy_safe:
  "0 < mLen \<Longrightarrow> length out + mLen \<le> m \<Longrightarrow> mSrc < length out \<Longrightarrow>
   \<exists>out'. match_copy m out mSrc mLen = Inr out'"
proof (induction m out mSrc mLen rule: match_copy.induct)
  case (1 m out mSrc mLen)
  have p: "put_dst m out mSrc = Inr (out @ [out ! mSrc])"
    using "1.prems" by (simp add: put_dst_def)
  show ?case
  proof (cases "0 < mLen - 1")
    case True
    have "\<exists>out'. match_copy m (out @ [out ! mSrc]) (mSrc + 1) (mLen - 1) = Inr out'"
      using "1.IH"[OF p refl] "1.prems" True by simp
    then show ?thesis
      using p True "1.prems"(1) by (subst match_copy.simps) (simp add: Let_def)
  next
    case False
    then show ?thesis
      using p "1.prems"(1) by (subst match_copy.simps) (simp add: Let_def)
  qed
qed

lemma zero_run_acc:
  fixes acc :: u32
  shows "zero_run src out ip acc = Inr (ip', acc') \<Longrightarrow>
         acc' = acc + 255 * of_nat (ip' - ip) \<and> ip \<le> ip' \<and> ip' < length src \<and> src ! ip' \<noteq> 0"
proof (induction src out ip acc rule: zero_run.induct)
  case (1 src out ip acc)
  show ?case
  proof (cases "src ! ip = 0")
    case True
    with "1.prems" have rec: "zero_run src out (ip + 1) (acc + 255) = Inr (ip', acc')"
      and c: "\<not> length src \<le> ip" "\<not> length src \<le> ip + 1"
      by (subst (asm) zero_run.simps, simp split: if_splits)+
    from "1.IH"[OF c(1) True c(2) rec]
    have h: "acc' = acc + 255 + 255 * of_nat (ip' - (ip + 1))" "ip + 1 \<le> ip'" "ip' < length src"
      "src ! ip' \<noteq> 0"
      by auto
    have "of_nat (ip' - ip) = (1 :: u32) + of_nat (ip' - (ip + 1))"
      using h(2) by (metis Suc_diff_Suc Suc_eq_plus1 Suc_le_lessD of_nat_Suc)
    then show ?thesis
      using h by (simp add: algebra_simps)
  next
    case False
    with "1.prems" show ?thesis
      by (subst (asm) zero_run.simps) (simp split: if_splits)
  qed
qed

lemma zero_run_no_write: "zero_run src out ip acc \<noteq> Inl (DstWriteOutside i)"
  by (induction src out ip acc rule: zero_run.induct)
     (subst zero_run.simps, auto)

lemma copy_literals_safe:
  "tt \<noteq> 0 \<Longrightarrow> copy_literals src m out ip tt \<noteq> Inl (DstWriteOutside i)"
  using lit_copy_safe[of tt out m src ip i]
  by (auto simp: copy_literals_def split: sum.splits)

lemma of_nat_u32_nonzero: "n < 4294967296 \<Longrightarrow> 0 < n \<Longrightarrow> (of_nat n :: u32) \<noteq> 0"
proof -
  assume "n < 4294967296" "0 < n"
  then have "unat (of_nat n :: u32) = n"
    by (simp add: unat_of_nat)
  with \<open>0 < n\<close> show ?thesis
    by (metis not_less_iff_gr_or_eq unat_0)
qed

lemma short_length_nonzero:
  fixes t :: u32
  assumes "t < 16"
  shows "t + 3 \<noteq> 0"
proof -
  have "unat t < 16"
    using assms by (simp add: word_less_nat_alt)
  then have "unat t + 3 < 4294967296" "0 < unat t + 3"
    by linarith+
  then have "(of_nat (unat t + 3) :: u32) \<noteq> 0"
    by (rule of_nat_u32_nonzero)
  moreover have "t + 3 = of_nat (unat t + 3)"
    by simp
  ultimately show ?thesis
    by (simp only: not_False_eq_True)
qed

lemma extended_length_nonzero:
  fixes b :: byte
  assumes "k \<le> 16843007"
  shows "(0 :: u32) + 255 * of_nat k + (15 + ucast b) + 3 \<noteq> 0"
proof -
  have b: "unat b < 256"
    by (rule unat_byte_lt)
  have "(ucast b :: u32) = of_nat (unat b)"
    by simp
  then have e: "(0 :: u32) + 255 * of_nat k + (15 + ucast b) + 3 = of_nat (255 * k + 18 + unat b)"
    by simp
  have "255 * k + 18 + unat b < 4294967296" "0 < 255 * k + 18 + unat b"
    using assms b by linarith+
  then have "(of_nat (255 * k + 18 + unat b) :: u32) \<noteq> 0"
    by (rule of_nat_u32_nonzero)
  then show ?thesis
    by (simp only: e not_False_eq_True)
qed

lemma main_loop_safe:
  assumes "length src \<le> 16843008"
  shows "step src m MainLoop s \<noteq> Inl (DstWriteOutside i)"
proof (cases "t_reg s < 16")
  case False
  then show ?thesis by (simp add: step_def main_loop_def)
next
  case small: True
  show ?thesis
  proof (cases "t_reg s = 0")
    case False
    have "step src m MainLoop s = copy_literals src m (dst_buf s) (ip_off s) (t_reg s + 3)"
      using small False by (simp add: step_def main_loop_def Let_def)
    then show ?thesis
      using copy_literals_safe[OF short_length_nonzero[OF small]] by simp
  next
    case zero: True
    show ?thesis
    proof (cases "zero_run src (dst_buf s) (ip_off s) (0 :: u32)")
      case (Inl e)
      then show ?thesis
        using small zero zero_run_no_write[of src "dst_buf s" "ip_off s" "0 :: u32" i]
        by (auto simp: step_def main_loop_def)
    next
      case (Inr p)
      obtain ip' acc' where p: "p = (ip', acc')" by (cases p)
      from zero_run_acc[of src "dst_buf s" "ip_off s" 0 ip' acc'] Inr p
      have z: "acc' = 0 + 255 * of_nat (ip' - ip_off s)" "ip' < length src"
        by auto
      have "ip' - ip_off s \<le> 16843007"
        using z(2) assms by linarith
      from extended_length_nonzero[OF this, of "src ! ip'"]
      have nz: "acc' + (15 + ucast (src ! ip')) + 3 \<noteq> 0"
        by (simp only: z(1) not_False_eq_True)
      have "step src m MainLoop s
              = copy_literals src m (dst_buf s) (ip' + 1) (acc' + (15 + ucast (src ! ip')) + 3)"
        using small zero Inr p by (simp add: step_def main_loop_def Let_def)
      then show ?thesis
        using copy_literals_safe[OF nz] by simp
    qed
  qed
qed

lemma extend_len_no_write: "extend_len src out ip n b \<noteq> Inl (DstWriteOutside i)"
  using zero_run_no_write[of src out ip n i]
  by (auto simp: extend_len_def split: sum.splits)

lemma decode_match_no_write: "decode_match src out ip t \<noteq> Inl (DstWriteOutside i)"
  using extend_len_no_write[of src out ip _ _ i]
  by (auto simp: decode_match_def Let_def split: sum.splits)

lemma decoded_length_pos:
  assumes "decode_match src out ip t = Inr (LongMatch ip' mPos mLen)"
  shows "0 < mLen"
proof (cases "64 \<le> t")
  case True
  have "unat (drop_bit 5 t) = unat t div 32"
    by (simp add: drop_bit_eq_div unat_div)
  then have "unat (drop_bit 5 t) + 2 < 4294967296" "0 < unat (drop_bit 5 t) + 2"
    using unat_u32_lt[of t] by linarith+
  then have "(of_nat (unat (drop_bit 5 t) + 2) :: u32) \<noteq> 0"
    by (rule of_nat_u32_nonzero)
  moreover have "drop_bit 5 t - 1 + 3 = (of_nat (unat (drop_bit 5 t) + 2) :: u32)"
    by simp
  ultimately have "drop_bit 5 t - 1 + 3 \<noteq> 0"
    by (simp only: not_False_eq_True)
  then have "0 < unat (drop_bit 5 t - 1 + 3)"
    by (simp add: unat_gt_0)
  then show ?thesis
    using assms True by (auto simp: decode_match_def Let_def split: if_splits)
next
  case False
  then show ?thesis
    using assms by (auto simp: decode_match_def Let_def split: if_splits sum.splits)
qed

lemma exec_long_safe:
  "0 < mLen \<Longrightarrow> exec_match m out t (LongMatch ip mPos mLen) \<noteq> Inl (DstWriteOutside i)"
  using match_copy_safe[of mLen out m mPos]
  by (auto simp: exec_match_def split: sum.splits)

lemma exec_short_safe:
  "n = 2 \<or> n = 3 \<Longrightarrow> exec_match m out t (ShortMatch ip mPos n) \<noteq> Inl (DstWriteOutside i)"
  by (auto simp: exec_match_def put_dst_def split: if_splits)

lemma match_loop_safe: "step src m MatchLoop s \<noteq> Inl (DstWriteOutside i)"
proof (cases "decode_match src (dst_buf s) (ip_off s) (t_reg s)")
  case (Inl e)
  then show ?thesis
    using decode_match_no_write[of src "dst_buf s" "ip_off s" "t_reg s" i]
    by (auto simp: step_def match_loop_def)
next
  case (Inr tok)
  show ?thesis
  proof (cases tok)
    case (EndOfStream ip)
    then show ?thesis using Inr by (simp add: step_def match_loop_def exec_match_def)
  next
    case (LongMatch ip mPos mLen)
    then show ?thesis
      using Inr decoded_length_pos[of src "dst_buf s" "ip_off s" "t_reg s" ip mPos mLen]
        exec_long_safe[of mLen m "dst_buf s" "t_reg s" ip mPos i]
      by (simp add: step_def match_loop_def)
  next
    case (ShortMatch ip mPos n)
    then have "n = 2"
      using Inr by (auto simp: decode_match_def Let_def split: if_splits sum.splits)
    then show ?thesis
      using Inr ShortMatch exec_short_safe[of n m "dst_buf s" "t_reg s" ip mPos i]
      by (simp add: step_def match_loop_def)
  qed
qed

lemma first_literal_run_safe: "step src m FirstLiteralRun s \<noteq> Inl (DstWriteOutside i)"
  using exec_short_safe[of 3 m "dst_buf s" _ _ _ i]
  by (auto simp: step_def first_literal_run_def decode_m1_direct_def Let_def)

lemma match_done_safe: "step src m MatchDone s \<noteq> Inl (DstWriteOutside i)"
  by (auto simp: step_def match_done_def Let_def)

lemma match_next_safe:
  assumes "t_reg s \<noteq> 0"
  shows "step src m MatchNext s \<noteq> Inl (DstWriteOutside i)"
proof -
  have "0 < unat (t_reg s)"
    using assms by (simp add: unat_gt_0)
  moreover have "1 < t_reg s \<Longrightarrow> 1 < unat (t_reg s)" "2 < t_reg s \<Longrightarrow> 2 < unat (t_reg s)"
    by (simp_all add: word_less_nat_alt)
  ultimately show ?thesis
    by (auto simp: step_def match_next_def put_lit_def Let_def split: if_splits)
qed

lemma step_to_match_next:
  "step src m l s = Inr (MatchNext, s') \<Longrightarrow> t_reg s' \<noteq> 0"
proof (cases l)
  case MainLoop
  assume "step src m l s = Inr (MatchNext, s')"
  with MainLoop show ?thesis
    by (auto simp: step_def main_loop_def copy_literals_def Let_def split: if_splits sum.splits)
next
  case FirstLiteralRun
  assume "step src m l s = Inr (MatchNext, s')"
  with FirstLiteralRun show ?thesis
    by (auto simp: step_def first_literal_run_def decode_m1_direct_def exec_match_def Let_def
          split: if_splits sum.splits)
next
  case MatchLoop
  assume a: "step src m l s = Inr (MatchNext, s')"
  show ?thesis
  proof (cases "decode_match src (dst_buf s) (ip_off s) (t_reg s)")
    case (Inl e)
    with a MatchLoop show ?thesis by (simp add: step_def match_loop_def)
  next
    case (Inr tok)
    with a MatchLoop show ?thesis
      by (cases tok) (auto simp: step_def match_loop_def exec_match_def split: if_splits sum.splits)
  qed
next
  case MatchDone
  assume "step src m l s = Inr (MatchNext, s')"
  with MatchDone show ?thesis
    by (auto simp: step_def match_done_def Let_def split: if_splits)
next
  case MatchNext
  assume "step src m l s = Inr (MatchNext, s')"
  with MatchNext show ?thesis
    by (auto simp: step_def match_next_def Let_def split: if_splits sum.splits prod.splits)
qed

lemma step_safe:
  assumes "length src \<le> 16843008" and "l = MatchNext \<Longrightarrow> t_reg s \<noteq> 0"
  shows "step src m l s \<noteq> Inl (DstWriteOutside i)"
  using assms main_loop_safe first_literal_run_safe match_loop_safe match_done_safe match_next_safe
  by (cases l) auto

lemma run_safe:
  "length src \<le> 16843008 \<Longrightarrow> (l = MatchNext \<Longrightarrow> t_reg s \<noteq> 0) \<Longrightarrow>
   run src m l s \<noteq> DstWriteOutside i"
proof (induction src m l s rule: run.induct)
  case (1 src m l s)
  show ?case
  proof (cases "step src m l s")
    case (Inl r)
    with step_safe[OF "1.prems"(1), of l s m i] "1.prems"(2) show ?thesis
      by (auto simp: run_Inl)
  next
    case (Inr p)
    obtain l' s' where p: "p = (l', s')" by (cases p)
    have "l' = MatchNext \<Longrightarrow> t_reg s' \<noteq> 0"
      using Inr p step_to_match_next[of src m l s s'] by simp
    from "1.IH"[OF Inr p[symmetric] "1.prems"(1) this] show ?thesis
      using Inr p by (simp add: run_Inr)
  qed
qed

lemma no_write_outside_short_input:
  assumes "length src \<le> 16843008"
  shows "decompress src m \<noteq> DstWriteOutside i"
proof -
  let ?t = "ucast (src ! 0) :: u32"
  have nz: "17 < ?t \<Longrightarrow> ?t - 17 \<noteq> 0"
    by auto
  have m: "17 < ?t \<Longrightarrow> run src m MatchNext \<lparr>ip_off = 1, dst_buf = [], t_reg = ?t - 17\<rparr>
             \<noteq> DstWriteOutside i"
    using run_safe[OF assms, of MatchNext "\<lparr>ip_off = 1, dst_buf = [], t_reg = ?t - 17\<rparr>" m i] nz
    by simp
  have c: "17 < ?t \<Longrightarrow> copy_literals src m [] 1 (?t - 17) \<noteq> Inl (DstWriteOutside i)"
    using copy_literals_safe[OF nz] by simp
  have r: "run src m l s \<noteq> DstWriteOutside i" if "l \<noteq> MatchNext" for l s
    using run_safe[OF assms, of l s m i] that by simp
  have f: "copy_literals src m [] 1 (?t - 17) = Inr (l, s) \<Longrightarrow> l \<noteq> MatchNext" for l s
    by (auto simp: copy_literals_def split: if_splits sum.splits)
  show ?thesis
    using m c r f
    by (auto simp: decompress_def Let_def split: sum.splits)
qed

section \<open>Properties of the container parser and of the reconstruction\<close>

lemma magic_at_header:
  "off + 16 \<le> length d \<Longrightarrow> magic_at d off \<longleftrightarrow> le32 d off = NFLC_MAGIC"
  by (simp add: magic_at_def)

lemma scan_unfold_magic:
  "off + 16 \<le> length d \<Longrightarrow> magic_at d off \<Longrightarrow>
   scan_headers d off cs = scan_headers d (off + CHUNK_SIZE) (cs @ [chunk_at d off])"
  by (subst scan_headers.simps) (simp add: magic_at_def)

lemma scan_unfold_skip:
  "0 < off \<Longrightarrow> off + 16 \<le> length d \<Longrightarrow> \<not> magic_at d off \<Longrightarrow>
   scan_headers d off cs = scan_headers d (off + CHUNK_SIZE) cs"
  by (subst scan_headers.simps) (simp add: magic_at_def)

lemma scan_unfold_end:
  "length d < off + 16 \<Longrightarrow> scan_headers d off cs = Inr cs"
  by (subst scan_headers.simps) simp

lemma scan_unfold_fatal:
  "16 \<le> length d \<Longrightarrow> \<not> magic_at d 0 \<Longrightarrow> scan_headers d 0 cs = Inl cs"
  by (subst scan_headers.simps) (auto simp: magic_at_def)

lemma scan_Inr: "0 < off \<Longrightarrow> \<exists>cs'. scan_headers d off cs = Inr (cs @ cs')"
proof (induction d off cs rule: scan_headers.induct)
  case (1 d off cs)
  have pos: "0 < off + CHUNK_SIZE"
    by (simp add: CHUNK_SIZE_def)
  show ?case
  proof (cases "length d < off + 16")
    case True
    then show ?thesis by (simp add: scan_unfold_end)
  next
    case False
    then have lt: "off < length d" and ge: "off + 16 \<le> length d" by auto
    show ?thesis
    proof (cases "magic_at d off")
      case True
      then have "\<not> le32 d off \<noteq> NFLC_MAGIC" by (simp add: magic_at_def)
      from "1.IH"(2)[OF lt False this pos] obtain cs' where
        "scan_headers d (off + CHUNK_SIZE) (cs @ [chunk_at d off])
           = Inr ((cs @ [chunk_at d off]) @ cs')"
        by blast
      then show ?thesis
        using True ge by (simp add: scan_unfold_magic)
    next
      case nm: False
      then have "le32 d off \<noteq> NFLC_MAGIC"
        using ge by (simp add: magic_at_def)
      from "1.IH"(1)[OF lt False this _ pos] "1.prems" obtain cs' where
        "scan_headers d (off + CHUNK_SIZE) cs = Inr (cs @ cs')"
        by blast
      then show ?thesis
        using nm ge "1.prems" by (simp add: scan_unfold_skip)
    qed
  qed
qed

lemma set_sizes_Nil: "set_sizes sz cs = [] \<longleftrightarrow> cs = []"
  by (induction sz cs rule: set_sizes.induct) simp_all

lemma set_sizes_offset: "map offset (set_sizes sz cs) = map offset cs"
  by (induction sz cs rule: set_sizes.induct) simp_all

lemma scan_magic:
  "scan_headers d off cs = Inr cs' \<Longrightarrow> \<forall>c \<in> set cs. magic_at d (offset c) \<Longrightarrow>
   \<forall>c \<in> set cs'. magic_at d (offset c)"
proof (induction d off cs rule: scan_headers.induct)
  case (1 d off cs)
  show ?case
  proof (cases "length d < off + 16")
    case True
    with "1.prems" show ?thesis by (simp add: scan_unfold_end)
  next
    case False
    then have lt: "off < length d" and ge: "off + 16 \<le> length d" by auto
    show ?thesis
    proof (cases "magic_at d off")
      case True
      then have m: "\<not> le32 d off \<noteq> NFLC_MAGIC" by (simp add: magic_at_def)
      show ?thesis
        using "1.IH"(2)[OF lt False m] "1.prems" True ge
        by (simp add: scan_unfold_magic chunk_at_def)
    next
      case nm: False
      then have m: "le32 d off \<noteq> NFLC_MAGIC"
        using ge by (simp add: magic_at_def)
      show ?thesis
      proof (cases "off = 0")
        case True
        with nm ge "1.prems" show ?thesis by (simp add: scan_unfold_fatal)
      next
        case False
        with "1.IH"(1)[OF lt \<open>\<not> length d < off + 16\<close> m] "1.prems" nm ge show ?thesis
          by (simp add: scan_unfold_skip)
      qed
    qed
  qed
qed

lemma scan_from_start:
  assumes "MAIN_HEADER_SIZE \<le> length d" and "magic_at d 0"
  shows "\<exists>cs. scan_headers d 0 [] = Inr (chunk_at d 0 # cs)"
proof -
  have len: "64 \<le> length d"
    using assms(1) by (simp add: MAIN_HEADER_SIZE_def)
  obtain cs' where "scan_headers d (0 + CHUNK_SIZE) ([] @ [chunk_at d 0])
                      = Inr (([] @ [chunk_at d 0]) @ cs')"
    using scan_Inr[of "0 + CHUNK_SIZE" d "[] @ [chunk_at d 0]"]
    by (auto simp: CHUNK_SIZE_def)
  moreover have "scan_headers d 0 [] = scan_headers d (0 + CHUNK_SIZE) ([] @ [chunk_at d 0])"
    using assms(2) len by (intro scan_unfold_magic) auto
  ultimately show ?thesis
    by simp
qed

lemma parse_ok_iff:
  "fst (parseChunks f) \<longleftrightarrow> MAIN_HEADER_SIZE \<le> length (file_data f) \<and> magic_at (file_data f) 0"
proof (cases "length (file_data f) < MAIN_HEADER_SIZE")
  case True
  then show ?thesis by (simp add: parseChunks_def)
next
  case False
  then have len: "64 \<le> length (file_data f)" by (simp add: MAIN_HEADER_SIZE_def)
  show ?thesis
  proof (cases "magic_at (file_data f) 0")
    case True
    from scan_from_start[OF _ True] False obtain cs where
      "scan_headers (file_data f) 0 [] = Inr (chunk_at (file_data f) 0 # cs)"
      by auto
    then show ?thesis
      using True False by (simp add: parseChunks_def set_sizes_Nil Let_def)
  next
    case nm: False
    then show ?thesis
      using len False by (simp add: parseChunks_def scan_unfold_fatal)
  qed
qed

lemma parse_failed_chunks: "\<not> fst (parseChunks f) \<Longrightarrow> chunks (snd (parseChunks f)) = []"
proof (cases "length (file_data f) < MAIN_HEADER_SIZE")
  case True
  then show ?thesis by (simp add: parseChunks_def)
next
  case False
  assume n: "\<not> fst (parseChunks f)"
  from False have len: "16 \<le> length (file_data f)" by (simp add: MAIN_HEADER_SIZE_def)
  from n False have "\<not> magic_at (file_data f) 0"
    by (simp add: parse_ok_iff)
  then show ?thesis
    using False len by (simp add: parseChunks_def scan_unfold_fatal)
qed

lemma parse_ok_chunks:
  assumes "parseChunks f = (True, g)"
  shows "file_data g = file_data f \<and> MAIN_HEADER_SIZE \<le> length (file_data f) \<and>
         (\<exists>cs. scan_headers (file_data f) 0 [] = Inr cs \<and>
               chunks g = set_sizes (length (file_data f)) cs \<and> cs \<noteq> [])"
  using assms
  by (auto simp: parseChunks_def Let_def set_sizes_Nil split: if_splits sum.splits)







lemma magic_bytes:
  "off + 4 \<le> length d \<Longrightarrow>
   d ! off = 0x6E \<Longrightarrow> d ! (off + 1) = 0x46 \<Longrightarrow> d ! (off + 2) = 0x6C \<Longrightarrow> d ! (off + 3) = 0x43
   \<Longrightarrow> magic_at d off"
  by (simp add: magic_at_def le32_def NFLC_MAGIC_def)


lemma nFlC_bytes: "bytes_of ''nFlC'' = [0x6E, 0x46, 0x6C, 0x43]"
  by (simp add: bytes_of_def)








text \<open>
  C7.  A buffer of 65536 bytes with the signature at offsets 0 and 32768 parses, with
  success, to the two-entry table \<open>{offset 0, dataOffset 64, dataSize 32704}\<close>,
  \<open>{offset 32768, dataOffset 32784, dataSize 32752}\<close>, in that order.
\<close>

theorem parser_scenario:
  assumes "length (file_data f) = 65536"
      and "magic_at (file_data f) 0" and "magic_at (file_data f) 32768"
  shows "fst (parseChunks f) \<and>
         map (\<lambda>c. (offset c, dataOffset c, dataSize c)) (chunks (snd (parseChunks f)))
           = [(0, 64, 32704), (32768, 32784, 32752)]"
proof -
  let ?d = "file_data f"
  have s0: "scan_headers ?d 0 [] = scan_headers ?d (0 + CHUNK_SIZE) ([] @ [chunk_at ?d 0])"
    using assms by (intro scan_unfold_magic) auto
  have s1: "scan_headers ?d 32768 [chunk_at ?d 0]
              = scan_headers ?d (32768 + CHUNK_SIZE) ([chunk_at ?d 0] @ [chunk_at ?d 32768])"
    using assms by (intro scan_unfold_magic) auto
  have s2: "scan_headers ?d 65536 [chunk_at ?d 0, chunk_at ?d 32768]
              = Inr [chunk_at ?d 0, chunk_at ?d 32768]"
    using assms by (subst scan_headers.simps) simp
  have "scan_headers ?d 0 [] = Inr [chunk_at ?d 0, chunk_at ?d 32768]"
    using s0 s1 s2 by (simp add: CHUNK_SIZE_def)
  then show ?thesis
    using assms(1)
    by (simp add: parseChunks_def Let_def MAIN_HEADER_SIZE_def CHUNK_HEADER_SIZE_def
          chunk_at_def size_sub_def)
qed

theorem parser_scenario_witness:
  "length (file_data (fresh (bytes_of ''nFlC'' @ replicate 32764 0
                               @ bytes_of ''nFlC'' @ replicate 32764 0))) = 65536 \<and>
   magic_at (file_data (fresh (bytes_of ''nFlC'' @ replicate 32764 0
                                 @ bytes_of ''nFlC'' @ replicate 32764 0))) 0 \<and>
   magic_at (file_data (fresh (bytes_of ''nFlC'' @ replicate 32764 0
                                 @ bytes_of ''nFlC'' @ replicate 32764 0))) 32768 \<and>
   fst (parseChunks (fresh (bytes_of ''nFlC'' @ replicate 32764 0
                              @ bytes_of ''nFlC'' @ replicate 32764 0))) \<and>
   map (\<lambda>c. (offset c, dataOffset c, dataSize c))
       (chunks (snd (parseChunks (fresh (bytes_of ''nFlC'' @ replicate 32764 0
                                           @ bytes_of ''nFlC'' @ replicate 32764 0)))))
     = [(0, 64, 32704), (32768, 32784, 32752)]"
proof -
  let ?d = "bytes_of ''nFlC'' @ replicate 32764 0 @ bytes_of ''nFlC'' @ replicate 32764 (0 :: byte)"
  have d: "file_data (fresh ?d) = ?d"
    by (simp add: fresh_def)
  have l: "length (file_data (fresh ?d)) = 65536"
    by (simp add: fresh_def nFlC_bytes)
  have m0: "magic_at (file_data (fresh ?d)) 0"
    unfolding d by (rule magic_bytes) (simp_all add: nFlC_bytes)
  have m1: "magic_at (file_data (fresh ?d)) 32768"
    unfolding d by (rule magic_bytes) (simp_all add: nFlC_bytes nth_append)
  from parser_scenario[OF l m0 m1] l m0 m1 show ?thesis
    by simp
qed

text \<open>
  C8.  \<open>parseChunks\<close> fails exactly when the signature does not match at offset 0 or the table
  it leaves is empty.  It succeeds exactly when the buffer holds the 64 bytes of a main
  header and the signature matches at offset 0: a shorter buffer fails on the size test,
  with the table cleared.  A signature mismatch at a later stride offset goes on to the next
  stride with the table unchanged, and every entry of the table is at an offset where the
  signature matches.
\<close>

theorem parse_failure:
  "(\<not> fst (parseChunks f)
      \<longleftrightarrow> \<not> magic_at (file_data f) 0 \<or> chunks (snd (parseChunks f)) = []) \<and>
   (fst (parseChunks f)
      \<longleftrightarrow> MAIN_HEADER_SIZE \<le> length (file_data f) \<and> magic_at (file_data f) 0) \<and>
   (0 < off \<and> off + 16 \<le> length d \<and> \<not> magic_at d off
      \<longrightarrow> scan_headers d off cs = scan_headers d (off + CHUNK_SIZE) cs) \<and>
   (\<forall>c \<in> set (chunks (snd (parseChunks f))). magic_at (file_data f) (offset c))"
proof (intro conjI impI)
  show "fst (parseChunks f)
          \<longleftrightarrow> MAIN_HEADER_SIZE \<le> length (file_data f) \<and> magic_at (file_data f) 0"
    by (rule parse_ok_iff)
next
  show "\<not> fst (parseChunks f)
          \<longleftrightarrow> \<not> magic_at (file_data f) 0 \<or> chunks (snd (parseChunks f)) = []"
  proof (cases "fst (parseChunks f)")
    case True
    then obtain g where g: "parseChunks f = (True, g)"
      by (cases "parseChunks f") auto
    from parse_ok_chunks[OF g] obtain cs' where
      "chunks g = set_sizes (length (file_data f)) cs'" "cs' \<noteq> []"
      by blast
    then have "chunks g \<noteq> []"
      by (simp add: set_sizes_Nil)
    then show ?thesis
      using True g parse_ok_iff[of f] by simp
  next
    case False
    then show ?thesis
      using parse_failed_chunks[of f] by simp
  qed
next
  assume "0 < off \<and> off + 16 \<le> length d \<and> \<not> magic_at d off"
  then show "scan_headers d off cs = scan_headers d (off + CHUNK_SIZE) cs"
    by (simp add: scan_unfold_skip)
next
  show "\<forall>c \<in> set (chunks (snd (parseChunks f))). magic_at (file_data f) (offset c)"
  proof (cases "fst (parseChunks f)")
    case True
    then obtain g where g: "parseChunks f = (True, g)"
      by (cases "parseChunks f") auto
    from parse_ok_chunks[OF g] obtain cs' where
      cs: "scan_headers (file_data f) 0 [] = Inr cs'"
          "chunks g = set_sizes (length (file_data f)) cs'"
      by blast
    have "\<forall>c \<in> set cs'. magic_at (file_data f) (offset c)"
      using scan_magic[OF cs(1)] by simp
    then have "\<forall>k \<in> set (map offset cs'). magic_at (file_data f) k"
      by simp
    then have "\<forall>k \<in> set (map offset (chunks g)). magic_at (file_data f) k"
      by (simp only: cs(2) set_sizes_offset)
    then show ?thesis
      using g by simp
  next
    case False
    then show ?thesis
      using parse_failed_chunks[of f] by simp
  qed
qed

theorem parse_failure_witness:
  "(0 :: nat) < 32768 \<and>
   32768 + 16 \<le> length (bytes_of ''nFlC'' @ replicate 32780 0) \<and>
   \<not> magic_at (bytes_of ''nFlC'' @ replicate 32780 0) 32768 \<and>
   scan_headers (bytes_of ''nFlC'' @ replicate 32780 0) 32768
       [chunk_at (bytes_of ''nFlC'' @ replicate 32780 0) 0]
     = scan_headers (bytes_of ''nFlC'' @ replicate 32780 0) (32768 + CHUNK_SIZE)
         [chunk_at (bytes_of ''nFlC'' @ replicate 32780 0) 0] \<and>
   magic_at (file_data (fresh (bytes_of ''nFlC'' @ replicate 32780 0))) 0 \<and>
   fst (parseChunks (fresh (bytes_of ''nFlC'' @ replicate 32780 0))) \<and>
   chunks (snd (parseChunks (fresh (bytes_of ''nFlC'' @ replicate 32780 0)))) \<noteq> [] \<and>
   magic_at (file_data (fresh (bytes_of ''nFlC'' @ replicate 59 0))) 0 \<and>
   \<not> fst (parseChunks (fresh (bytes_of ''nFlC'' @ replicate 59 0))) \<and>
   chunks (snd (parseChunks (fresh (bytes_of ''nFlC'' @ replicate 59 0)))) = []"
proof -
  let ?d = "bytes_of ''nFlC'' @ replicate 32780 (0 :: byte)"
  let ?e = "bytes_of ''nFlC'' @ replicate 59 (0 :: byte)"
  have l: "length ?d = 32784" "length ?e = 63"
    by (simp_all add: nFlC_bytes)
  have d: "file_data (fresh ?d) = ?d" "file_data (fresh ?e) = ?e"
    by (simp_all add: fresh_def)
  have m0: "magic_at ?d 0" "magic_at ?e 0"
    by (rule magic_bytes; simp add: nFlC_bytes)+
  have m1: "\<not> magic_at ?d 32768"
    by (simp add: magic_at_def le32_def NFLC_MAGIC_def nFlC_bytes nth_append)
  have sz: "MAIN_HEADER_SIZE \<le> length ?d" "\<not> MAIN_HEADER_SIZE \<le> length ?e"
    using l by (simp_all add: MAIN_HEADER_SIZE_def)
  note a = parse_failure[of "fresh ?d" 32768 ?d "[chunk_at ?d 0]"]
  note b = parse_failure[of "fresh ?e" 32768 ?d "[chunk_at ?d 0]"]
  have ok: "fst (parseChunks (fresh ?d))" "\<not> fst (parseChunks (fresh ?e))"
    using a b d m0 sz by simp_all
  have tab: "chunks (snd (parseChunks (fresh ?d))) \<noteq> []"
            "chunks (snd (parseChunks (fresh ?e))) = []"
    using a b ok d m0 by simp_all
  have skip: "scan_headers ?d 32768 [chunk_at ?d 0]
                = scan_headers ?d (32768 + CHUNK_SIZE) [chunk_at ?d 0]"
    using a l m1 by simp
  show ?thesis
    using ok tab skip l d m0 m1 by simp
qed





end
